theory Spec2Isabelle
  imports Main "HOL-Library.Sublist"
begin

section \<open>The producer-consumer program of \<^verbatim>\<open>7_ProdCons.c\<close>\<close>

text \<open>
  The program has three threads: the main thread, the thread \<^verbatim>\<open>th_a\<close> running
  \<^verbatim>\<open>Consumer\<close> and the thread \<^verbatim>\<open>th_b\<close> running \<^verbatim>\<open>Producer\<close>. They share the
  global \<^verbatim>\<open>struct prodcons buffer\<close>. The model is an interleaving semantics: every
  thread has a program counter, one step of a thread executes one statement, and a
  schedule (a list of actions: steps of threads, and spurious wake-ups of waiting
  threads) is a run of the program. A statement that cannot proceed (a lock held by
  another thread, a condition variable not signalled, a join on a running thread) is
  \<open>Disabled\<close>; a statement whose behaviour C or POSIX leaves undefined is a \<open>Fault\<close>.
\<close>

subsection \<open>Constants\<close>

text \<open>
  \<^verbatim>\<open>BUFFER_SIZE\<close>, \<^verbatim>\<open>LIMIT\<close> and \<^verbatim>\<open>COUNT\<close> are parameters of the model, so that
  properties can be stated for every capacity and item count. The three result codes are
  what the environment answers to the three initialisation calls of \<^verbatim>\<open>init\<close>
  (0 is success). C's \<^verbatim>\<open>int\<close> is modelled by \<open>int\<close>: the only arithmetic of the
  program is \<^verbatim>\<open>write + 1\<close>, \<^verbatim>\<open>read++\<close>, \<^verbatim>\<open>write++\<close> (below \<^verbatim>\<open>BUFFER_SIZE\<close>) and
  \<^verbatim>\<open>n++\<close> (below \<^verbatim>\<open>COUNT\<close>), none of which can leave the range of a C \<^verbatim>\<open>int\<close>.
\<close>

record config =
  BUFFER_SIZE :: int
  LIMIT :: int
  COUNT :: int
  key_rc :: int
  notEmpty_rc :: int
  notFull_rc :: int

definition source_config :: config where
  "source_config =
     \<lparr>BUFFER_SIZE = 4, LIMIT = - 1, COUNT = 11, key_rc = 0, notEmpty_rc = 0, notFull_rc = 0\<rparr>"

text \<open>C's \<^verbatim>\<open>%\<close> truncates towards zero: the result has the sign of the dividend.\<close>

definition c_rem :: "int \<Rightarrow> int \<Rightarrow> int" where
  "c_rem a b = sgn a * (\<bar>a\<bar> mod \<bar>b\<bar>)"

subsection \<open>Threads, outcomes and the POSIX primitives\<close>

datatype tid = main_thread | th_a | th_b

datatype 'a outcome = Disabled | Fault | Next 'a

datatype mutex = Mutex_invalid | Unlocked | Locked tid

datatype cond = Cond_invalid | Waiters "tid list"

definition pthread_mutex_init :: "int \<Rightarrow> mutex" where
  "pthread_mutex_init rc = (if rc = 0 then Unlocked else Mutex_invalid)"

definition pthread_cond_init :: "int \<Rightarrow> cond" where
  "pthread_cond_init rc = (if rc = 0 then Waiters [] else Cond_invalid)"

fun pthread_mutex_lock :: "tid \<Rightarrow> mutex \<Rightarrow> mutex outcome" where
  "pthread_mutex_lock t Mutex_invalid = Fault"
| "pthread_mutex_lock t Unlocked = Next (Locked t)"
| "pthread_mutex_lock t (Locked u) = Disabled"

definition pthread_mutex_unlock :: "tid \<Rightarrow> mutex \<Rightarrow> mutex outcome" where
  "pthread_mutex_unlock t m = (if m = Locked t then Next Unlocked else Fault)"

text \<open>
  \<^verbatim>\<open>pthread_cond_wait\<close> has two halves. Entering it releases the mutex and puts the
  caller on the queue of the condition variable, atomically. The call returns once the
  caller is off the queue (signalled, or woken spuriously) and has the mutex again.
\<close>

fun cond_wait_enter :: "tid \<Rightarrow> cond \<Rightarrow> mutex \<Rightarrow> (cond \<times> mutex) outcome" where
  "cond_wait_enter t Cond_invalid m = Fault"
| "cond_wait_enter t (Waiters ws) m =
     (if m = Locked t then Next (Waiters (ws @ [t]), Unlocked) else Fault)"

fun cond_wait_return :: "tid \<Rightarrow> cond \<Rightarrow> mutex \<Rightarrow> mutex outcome" where
  "cond_wait_return t Cond_invalid m = Fault"
| "cond_wait_return t (Waiters ws) m =
     (if t \<in> set ws then Disabled else pthread_mutex_lock t m)"

text \<open>A signal wakes the first waiter; with no waiter it does nothing.\<close>

fun pthread_cond_signal :: "cond \<Rightarrow> cond outcome" where
  "pthread_cond_signal Cond_invalid = Fault"
| "pthread_cond_signal (Waiters ws) = Next (Waiters (tl ws))"

fun pthread_cond_destroy :: "cond \<Rightarrow> cond outcome" where
  "pthread_cond_destroy Cond_invalid = Fault"
| "pthread_cond_destroy (Waiters ws) = (if ws = [] then Next Cond_invalid else Fault)"

fun pthread_mutex_destroy :: "mutex \<Rightarrow> mutex outcome" where
  "pthread_mutex_destroy Unlocked = Next Mutex_invalid"
| "pthread_mutex_destroy m = Fault"

text \<open>A spurious wake-up takes a waiting thread off the queue without a signal.\<close>

fun spurious :: "tid \<Rightarrow> cond \<Rightarrow> cond outcome" where
  "spurious t Cond_invalid = Disabled"
| "spurious t (Waiters ws) = (if t \<in> set ws then Next (Waiters (removeAll t ws)) else Disabled)"

subsection \<open>The shared structure\<close>

record prodcons =
  buffer :: "int list"
  key :: mutex
  read :: int
  "write" :: int
  notEmpty :: cond
  notFull :: cond

definition init :: "config \<Rightarrow> prodcons \<Rightarrow> prodcons" where
  "init cfg b =
     b\<lparr>key := pthread_mutex_init (key_rc cfg),
       notEmpty := pthread_cond_init (notEmpty_rc cfg),
       notFull := pthread_cond_init (notFull_rc cfg),
       read := 0,
       write := 0\<rparr>"

text \<open>
  The control points inside \<^verbatim>\<open>Store\<close> and \<^verbatim>\<open>Get\<close>: the lock (lines 66, 87), the
  test of the \<^verbatim>\<open>while\<close> (68, 89), the call of \<^verbatim>\<open>pthread_cond_wait\<close> (69, 90), its
  return, the update of the data (75 to 77, 97 to 99), the signal (79, 101) and the
  unlock with the return (80, 102 and 103). The three statements of the update are one
  step: they run with the key held, and apart from \<^verbatim>\<open>init\<close>, which runs before either
  thread exists, the tests and the updates are the only statements of the program that
  read or write the slots and the indices, and they all run with the key held.
\<close>

datatype cs_pc = Lock | While | Wait | Wake | Update | Signal | Unlock

definition is_full :: "config \<Rightarrow> prodcons \<Rightarrow> bool" where
  "is_full cfg b = (c_rem (write b + 1) (BUFFER_SIZE cfg) = read b)"

definition is_empty :: "prodcons \<Rightarrow> bool" where
  "is_empty b = (write b = read b)"

definition in_bounds :: "int \<Rightarrow> int list \<Rightarrow> bool" where
  "in_bounds i xs = (0 \<le> i \<and> nat i < length xs)"

text \<open>Lines 75 to 77 of the source.\<close>

definition Store_update :: "config \<Rightarrow> int \<Rightarrow> prodcons \<Rightarrow> prodcons" where
  "Store_update cfg data b =
     (let b1 = b\<lparr>buffer := (buffer b)[nat (write b) := data]\<rparr>;
          b2 = b1\<lparr>write := write b1 + 1\<rparr>
      in if write b2 \<ge> BUFFER_SIZE cfg then b2\<lparr>write := 0\<rparr> else b2)"

text \<open>Lines 97 to 99 of the source: the value read and the structure afterwards.\<close>

definition Get_update :: "config \<Rightarrow> prodcons \<Rightarrow> int \<times> prodcons" where
  "Get_update cfg b =
     (let data = buffer b ! nat (read b);
          b1 = b\<lparr>read := read b + 1\<rparr>
      in (data, if read b1 \<ge> BUFFER_SIZE cfg then b1\<lparr>read := 0\<rparr> else b1))"

text \<open>
  One step of \<^verbatim>\<open>Store\<close>, called by thread \<open>t\<close> with argument \<open>data\<close>, at control
  point \<open>pc\<close>. The result is the next control point (\<open>None\<close> when the function returns)
  and the structure.
\<close>

fun Store :: "config \<Rightarrow> tid \<Rightarrow> int \<Rightarrow> cs_pc \<Rightarrow> prodcons \<Rightarrow> (cs_pc option \<times> prodcons) outcome" where
  "Store cfg t data Lock b =
     map_outcome (\<lambda>m. (Some While, b\<lparr>key := m\<rparr>)) (pthread_mutex_lock t (key b))"
| "Store cfg t data While b =
     (if BUFFER_SIZE cfg = 0 then Fault
      else if is_full cfg b then Next (Some Wait, b) else Next (Some Update, b))"
| "Store cfg t data Wait b =
     map_outcome (\<lambda>(c, m). (Some Wake, b\<lparr>notFull := c, key := m\<rparr>))
       (cond_wait_enter t (notFull b) (key b))"
| "Store cfg t data Wake b =
     map_outcome (\<lambda>m. (Some While, b\<lparr>key := m\<rparr>)) (cond_wait_return t (notFull b) (key b))"
| "Store cfg t data Update b =
     (if in_bounds (write b) (buffer b) then Next (Some Signal, Store_update cfg data b)
      else Fault)"
| "Store cfg t data Signal b =
     map_outcome (\<lambda>c. (Some Unlock, b\<lparr>notEmpty := c\<rparr>)) (pthread_cond_signal (notEmpty b))"
| "Store cfg t data Unlock b =
     map_outcome (\<lambda>m. (None, b\<lparr>key := m\<rparr>)) (pthread_mutex_unlock t (key b))"

text \<open>
  One step of \<^verbatim>\<open>Get\<close>, called by thread \<open>t\<close>, at control point \<open>pc\<close> with the local
  variable \<^verbatim>\<open>data\<close>. The result is the next control point, the local variable (the
  value returned when the control point is \<open>None\<close>) and the structure.
\<close>

fun Get :: "config \<Rightarrow> tid \<Rightarrow> cs_pc \<Rightarrow> int \<Rightarrow> prodcons \<Rightarrow> (cs_pc option \<times> int \<times> prodcons) outcome" where
  "Get cfg t Lock data b =
     map_outcome (\<lambda>m. (Some While, data, b\<lparr>key := m\<rparr>)) (pthread_mutex_lock t (key b))"
| "Get cfg t While data b =
     (if is_empty b then Next (Some Wait, data, b) else Next (Some Update, data, b))"
| "Get cfg t Wait data b =
     map_outcome (\<lambda>(c, m). (Some Wake, data, b\<lparr>notEmpty := c, key := m\<rparr>))
       (cond_wait_enter t (notEmpty b) (key b))"
| "Get cfg t Wake data b =
     map_outcome (\<lambda>m. (Some While, data, b\<lparr>key := m\<rparr>))
       (cond_wait_return t (notEmpty b) (key b))"
| "Get cfg t Update data b =
     (if in_bounds (read b) (buffer b)
      then Next (Some Signal, fst (Get_update cfg b), snd (Get_update cfg b))
      else Fault)"
| "Get cfg t Signal data b =
     map_outcome (\<lambda>c. (Some Unlock, data, b\<lparr>notFull := c\<rparr>)) (pthread_cond_signal (notFull b))"
| "Get cfg t Unlock data b =
     map_outcome (\<lambda>m. (None, data, b\<lparr>key := m\<rparr>)) (pthread_mutex_unlock t (key b))"

subsection \<open>The threads\<close>

text \<open>
  \<^verbatim>\<open>Producer\<close> calls \<^verbatim>\<open>Store\<close> at two places: \<^verbatim>\<open>Store(&buffer, n)\<close> in the loop
  (line 114) and \<^verbatim>\<open>Store(&buffer, LIMIT)\<close> after it (line 117).
\<close>

datatype call_site = In_loop | After_loop

text \<open>
  The control points of the three threads. A thread is unborn until \<^verbatim>\<open>main\<close> creates
  it. In \<^verbatim>\<open>Producer\<close>: \<^verbatim>\<open>n = 0\<close>, the test \<^verbatim>\<open>n < COUNT\<close>, the \<^verbatim>\<open>printf\<close>, the call
  of \<^verbatim>\<open>Store\<close>, the \<^verbatim>\<open>sleep\<close> followed by \<^verbatim>\<open>n++\<close>, the return. In \<^verbatim>\<open>Consumer\<close>:
  the call of \<^verbatim>\<open>Get\<close>, the test \<^verbatim>\<open>d == LIMIT\<close>, the \<^verbatim>\<open>printf\<close>, the \<^verbatim>\<open>sleep\<close>,
  the return. In \<^verbatim>\<open>main\<close>: one control point for each call, in the order of the
  source. The time slept and the random numbers have no effect on the state.
\<close>

datatype prod_pc =
  P_unborn | P_init | P_for | P_printf | P_Store call_site cs_pc | P_sleep | P_return

datatype cons_pc =
  C_unborn | C_Get cs_pc | C_if | C_printf | C_sleep | C_return

datatype main_pc =
  M_init | M_srand | M_create_a | M_create_b | M_join_a | M_join_b
| M_destroy_notEmpty | M_destroy_notFull | M_destroy_key | M_return

text \<open>A line of the standard output: \<^verbatim>\<open>"%d --->"\<close> or \<^verbatim>\<open>"---> %d"\<close>.\<close>

datatype line = Produced int | Consumed int

text \<open>
  The state of the program: the global structure, the control point of each thread, the
  locals \<^verbatim>\<open>n\<close> of \<^verbatim>\<open>Producer\<close>, \<^verbatim>\<open>data\<close> of \<^verbatim>\<open>Get\<close> and \<^verbatim>\<open>d\<close> of \<^verbatim>\<open>Consumer\<close>,
  and the standard output. The last three fields are history variables, read by no
  statement: the values written into a slot by \<^verbatim>\<open>Store\<close> (line 75), the values read
  from a slot by \<^verbatim>\<open>Get\<close> (line 97) and the values returned by \<^verbatim>\<open>Get\<close> (line 103).
\<close>

record state =
  buf :: prodcons
  main_pc :: main_pc
  cons_pc :: cons_pc
  prod_pc :: prod_pc
  n :: int
  data :: int
  d :: int
  stdout :: "line list"
  pushed :: "int list"
  popped :: "int list"
  returned :: "int list"

definition initial :: "config \<Rightarrow> state" where
  "initial cfg =
     \<lparr>buf = \<lparr>buffer = replicate (nat (BUFFER_SIZE cfg)) 0, key = Mutex_invalid, read = 0,
              write = 0, notEmpty = Cond_invalid, notFull = Cond_invalid\<rparr>,
      main_pc = M_init, cons_pc = C_unborn, prod_pc = P_unborn,
      n = 0, data = 0, d = 0, stdout = [], pushed = [], popped = [],
      returned = []\<rparr>"

text \<open>The argument of the call of \<^verbatim>\<open>Store\<close> and the control point it returns to.\<close>

definition Store_arg :: "config \<Rightarrow> call_site \<Rightarrow> state \<Rightarrow> int" where
  "Store_arg cfg site s = (case site of In_loop \<Rightarrow> n s | After_loop \<Rightarrow> LIMIT cfg)"

definition Store_next :: "call_site \<Rightarrow> cs_pc option \<Rightarrow> prod_pc" where
  "Store_next site r =
     (case r of
        Some pc' \<Rightarrow> P_Store site pc'
      | None \<Rightarrow> (case site of In_loop \<Rightarrow> P_sleep | After_loop \<Rightarrow> P_return))"

definition Store_call :: "config \<Rightarrow> call_site \<Rightarrow> cs_pc \<Rightarrow> state \<Rightarrow> state outcome" where
  "Store_call cfg site pc s =
     map_outcome
       (\<lambda>(pc', b).
          s\<lparr>buf := b, prod_pc := Store_next site pc',
            pushed := (if pc = Update then pushed s @ [Store_arg cfg site s] else pushed s)\<rparr>)
       (Store cfg th_b (Store_arg cfg site s) pc (buf s))"

definition Producer :: "config \<Rightarrow> state \<Rightarrow> state outcome" where
  "Producer cfg s =
     (case prod_pc s of
        P_unborn \<Rightarrow> Disabled
      | P_init \<Rightarrow> Next (s\<lparr>n := 0, prod_pc := P_for\<rparr>)
      | P_for \<Rightarrow>
          Next (if n s < COUNT cfg then s\<lparr>prod_pc := P_printf\<rparr>
                else s\<lparr>prod_pc := P_Store After_loop Lock\<rparr>)
      | P_printf \<Rightarrow>
          Next (s\<lparr>stdout := stdout s @ [Produced (n s)], prod_pc := P_Store In_loop Lock\<rparr>)
      | P_Store site pc \<Rightarrow> Store_call cfg site pc s
      | P_sleep \<Rightarrow> Next (s\<lparr>n := n s + 1, prod_pc := P_for\<rparr>)
      | P_return \<Rightarrow> Disabled)"

definition Get_call :: "config \<Rightarrow> cs_pc \<Rightarrow> state \<Rightarrow> state outcome" where
  "Get_call cfg pc s =
     map_outcome
       (\<lambda>(pc', v, b).
          case pc' of
            Some pc'' \<Rightarrow>
              s\<lparr>buf := b, cons_pc := C_Get pc'', data := v,
                popped := (if pc = Update then popped s @ [v] else popped s)\<rparr>
          | None \<Rightarrow>
              s\<lparr>buf := b, cons_pc := C_if, data := v, d := v, returned := returned s @ [v]\<rparr>)
       (Get cfg th_a pc (data s) (buf s))"

definition Consumer :: "config \<Rightarrow> state \<Rightarrow> state outcome" where
  "Consumer cfg s =
     (case cons_pc s of
        C_unborn \<Rightarrow> Disabled
      | C_Get pc \<Rightarrow> Get_call cfg pc s
      | C_if \<Rightarrow> Next (if d s = LIMIT cfg then s\<lparr>cons_pc := C_return\<rparr> else s\<lparr>cons_pc := C_printf\<rparr>)
      | C_printf \<Rightarrow> Next (s\<lparr>stdout := stdout s @ [Consumed (d s)], cons_pc := C_sleep\<rparr>)
      | C_sleep \<Rightarrow> Next (s\<lparr>cons_pc := C_Get Lock\<rparr>)
      | C_return \<Rightarrow> Disabled)"

text \<open>
  The main thread. The results of \<^verbatim>\<open>pthread_create\<close> and \<^verbatim>\<open>pthread_join\<close> are not
  looked at by the source; thread creation is taken to succeed.
\<close>

definition main :: "config \<Rightarrow> state \<Rightarrow> state outcome" where
  "main cfg s =
     (case main_pc s of
        M_init \<Rightarrow> Next (s\<lparr>buf := init cfg (buf s), main_pc := M_srand\<rparr>)
      | M_srand \<Rightarrow> Next (s\<lparr>main_pc := M_create_a\<rparr>)
      | M_create_a \<Rightarrow> Next (s\<lparr>cons_pc := C_Get Lock, main_pc := M_create_b\<rparr>)
      | M_create_b \<Rightarrow> Next (s\<lparr>prod_pc := P_init, main_pc := M_join_a\<rparr>)
      | M_join_a \<Rightarrow> (if cons_pc s = C_return then Next (s\<lparr>main_pc := M_join_b\<rparr>) else Disabled)
      | M_join_b \<Rightarrow>
          (if prod_pc s = P_return then Next (s\<lparr>main_pc := M_destroy_notEmpty\<rparr>) else Disabled)
      | M_destroy_notEmpty \<Rightarrow>
          map_outcome (\<lambda>c. s\<lparr>buf := (buf s)\<lparr>notEmpty := c\<rparr>, main_pc := M_destroy_notFull\<rparr>)
            (pthread_cond_destroy (notEmpty (buf s)))
      | M_destroy_notFull \<Rightarrow>
          map_outcome (\<lambda>c. s\<lparr>buf := (buf s)\<lparr>notFull := c\<rparr>, main_pc := M_destroy_key\<rparr>)
            (pthread_cond_destroy (notFull (buf s)))
      | M_destroy_key \<Rightarrow>
          map_outcome (\<lambda>m. s\<lparr>buf := (buf s)\<lparr>key := m\<rparr>, main_pc := M_return\<rparr>)
            (pthread_mutex_destroy (key (buf s)))
      | M_return \<Rightarrow> Disabled)"

subsection \<open>Runs\<close>

text \<open>
  An action is a step of a thread or a spurious wake-up of a thread blocked in
  \<^verbatim>\<open>pthread_cond_wait\<close>. The producer only ever waits on \<^verbatim>\<open>notFull\<close> and the consumer
  on \<^verbatim>\<open>notEmpty\<close>.
\<close>

datatype action = Run tid | Spurious tid

definition wake_spuriously :: "tid \<Rightarrow> state \<Rightarrow> state outcome" where
  "wake_spuriously t s =
     (case spurious t (notFull (buf s)) of
        Next c \<Rightarrow> Next (s\<lparr>buf := (buf s)\<lparr>notFull := c\<rparr>\<rparr>)
      | _ \<Rightarrow> map_outcome (\<lambda>c. s\<lparr>buf := (buf s)\<lparr>notEmpty := c\<rparr>\<rparr>) (spurious t (notEmpty (buf s))))"

fun step :: "config \<Rightarrow> action \<Rightarrow> state \<Rightarrow> state outcome" where
  "step cfg (Run main_thread) s = main cfg s"
| "step cfg (Run th_a) s = Consumer cfg s"
| "step cfg (Run th_b) s = Producer cfg s"
| "step cfg (Spurious t) s = wake_spuriously t s"

text \<open>A schedule is followed strictly: every action must be enabled when its turn comes.\<close>

fun exec :: "config \<Rightarrow> action list \<Rightarrow> state \<Rightarrow> state outcome" where
  "exec cfg [] s = Next s"
| "exec cfg (a # as) s =
     (case step cfg a s of Next s' \<Rightarrow> exec cfg as s' | Disabled \<Rightarrow> Disabled | Fault \<Rightarrow> Fault)"

subsection \<open>Invariants\<close>

text \<open>
  The control points between the lock and the unlock, where the thread holds the key,
  and those after the update of the data.
\<close>

fun holds_key :: "cs_pc \<Rightarrow> bool" where
  "holds_key Lock = False"
| "holds_key While = True"
| "holds_key Wait = True"
| "holds_key Wake = False"
| "holds_key Update = True"
| "holds_key Signal = True"
| "holds_key Unlock = True"

fun updated :: "cs_pc \<Rightarrow> bool" where
  "updated Lock = False"
| "updated While = False"
| "updated Wait = False"
| "updated Wake = False"
| "updated Update = False"
| "updated Signal = True"
| "updated Unlock = True"

text \<open>The producer is inside \<^verbatim>\<open>Store\<close>, the consumer inside \<^verbatim>\<open>Get\<close>, at a control point with \<open>P\<close>.\<close>

fun in_Store :: "(cs_pc \<Rightarrow> bool) \<Rightarrow> prod_pc \<Rightarrow> bool" where
  "in_Store P (P_Store site pc) = P pc"
| "in_Store P P_unborn = False"
| "in_Store P P_init = False"
| "in_Store P P_for = False"
| "in_Store P P_printf = False"
| "in_Store P P_sleep = False"
| "in_Store P P_return = False"

fun in_Get :: "(cs_pc \<Rightarrow> bool) \<Rightarrow> cons_pc \<Rightarrow> bool" where
  "in_Get P (C_Get pc) = P pc"
| "in_Get P C_unborn = False"
| "in_Get P C_if = False"
| "in_Get P C_printf = False"
| "in_Get P C_sleep = False"
| "in_Get P C_return = False"

text \<open>
  The life of the threads: the consumer exists from \<^verbatim>\<open>pthread_create(&th_a)\<close> on, the
  producer from \<^verbatim>\<open>pthread_create(&th_b)\<close> on, and \<^verbatim>\<open>main\<close> is past a join only when the
  thread joined has returned.
\<close>

definition inv_life :: "state \<Rightarrow> bool" where
  "inv_life s \<longleftrightarrow>
     (cons_pc s = C_unborn \<longleftrightarrow> main_pc s \<in> {M_init, M_srand, M_create_a}) \<and>
     (prod_pc s = P_unborn \<longleftrightarrow> main_pc s \<in> {M_init, M_srand, M_create_a, M_create_b}) \<and>
     (main_pc s \<in> {M_join_b, M_destroy_notEmpty, M_destroy_notFull, M_destroy_key, M_return}
        \<longrightarrow> cons_pc s = C_return) \<and>
     (main_pc s \<in> {M_destroy_notEmpty, M_destroy_notFull, M_destroy_key, M_return}
        \<longrightarrow> prod_pc s = P_return)"

text \<open>
  The mutex is valid from \<^verbatim>\<open>init\<close> to its destruction, it is held by the thread that is
  between its lock and its unlock, and the two threads are never both there.
\<close>

definition inv_key :: "state \<Rightarrow> bool" where
  "inv_key s \<longleftrightarrow>
     key (buf s) =
       (if main_pc s \<in> {M_init, M_return} then Mutex_invalid
        else if in_Store holds_key (prod_pc s) then Locked th_b
        else if in_Get holds_key (cons_pc s) then Locked th_a
        else Unlocked) \<and>
     \<not> (in_Store holds_key (prod_pc s) \<and> in_Get holds_key (cons_pc s))"

text \<open>
  The assumptions on the constants and the environment: a capacity of at least 2, and
  three initialisations that succeed.
\<close>

definition well_configured :: "config \<Rightarrow> bool" where
  "well_configured cfg \<longleftrightarrow>
     2 \<le> BUFFER_SIZE cfg \<and> key_rc cfg = 0 \<and> notEmpty_rc cfg = 0 \<and> notFull_rc cfg = 0"

text \<open>The values printed by the consumer, in the order printed.\<close>

fun consumed :: "line list \<Rightarrow> int list" where
  "consumed [] = []"
| "consumed (Produced v # ls) = consumed ls"
| "consumed (Consumed v # ls) = v # consumed ls"

text \<open>
  A thread calls \<^verbatim>\<open>pthread_cond_wait\<close> only when its test holds and reaches its update
  only when it does not.
\<close>

definition inv_wait :: "config \<Rightarrow> state \<Rightarrow> bool" where
  "inv_wait cfg s \<longleftrightarrow>
     (in_Store (\<lambda>pc. pc = Wait) (prod_pc s) \<longrightarrow> is_full cfg (buf s)) \<and>
     (in_Store (\<lambda>pc. pc = Update) (prod_pc s) \<longrightarrow> \<not> is_full cfg (buf s)) \<and>
     (in_Get (\<lambda>pc. pc = Wait) (cons_pc s) \<longrightarrow> is_empty (buf s)) \<and>
     (in_Get (\<lambda>pc. pc = Update) (cons_pc s) \<longrightarrow> \<not> is_empty (buf s))"

text \<open>
  No wake-up is lost: only the producer is ever queued on \<^verbatim>\<open>notFull\<close>, inside
  \<^verbatim>\<open>pthread_cond_wait\<close>, and while it is queued the buffer is full or the consumer has
  freed a slot and is about to signal. The same for the consumer and \<^verbatim>\<open>notEmpty\<close>.
\<close>

definition inv_notFull :: "config \<Rightarrow> state \<Rightarrow> bool" where
  "inv_notFull cfg s \<longleftrightarrow>
     (if main_pc s \<in> {M_init, M_destroy_key, M_return} then notFull (buf s) = Cond_invalid
      else notFull (buf s) = Waiters [] \<or>
           notFull (buf s) = Waiters [th_b] \<and> in_Store (\<lambda>pc. pc = Wake) (prod_pc s) \<and>
           (is_full cfg (buf s) \<or> in_Get (\<lambda>pc. pc = Signal) (cons_pc s)))"

definition inv_notEmpty :: "state \<Rightarrow> bool" where
  "inv_notEmpty s \<longleftrightarrow>
     (if main_pc s \<in> {M_init, M_destroy_notFull, M_destroy_key, M_return}
      then notEmpty (buf s) = Cond_invalid
      else notEmpty (buf s) = Waiters [] \<or>
           notEmpty (buf s) = Waiters [th_a] \<and> in_Get (\<lambda>pc. pc = Wake) (cons_pc s) \<and>
           (is_empty (buf s) \<or> in_Store (\<lambda>pc. pc = Signal) (prod_pc s)))"

text \<open>
  What the producer has stored, by its control point and \<^verbatim>\<open>n\<close>; what the consumer has
  read, got back from \<^verbatim>\<open>Get\<close> and printed, by its control point and its locals.
\<close>

fun prod_ok :: "config \<Rightarrow> prod_pc \<Rightarrow> int \<Rightarrow> int list \<Rightarrow> bool" where
  "prod_ok cfg P_unborn i ps \<longleftrightarrow> ps = []"
| "prod_ok cfg P_init i ps \<longleftrightarrow> ps = []"
| "prod_ok cfg P_for i ps \<longleftrightarrow> 0 \<le> i \<and> (i \<le> COUNT cfg \<or> i = 0) \<and> ps = [0..i - 1]"
| "prod_ok cfg P_printf i ps \<longleftrightarrow> 0 \<le> i \<and> i < COUNT cfg \<and> ps = [0..i - 1]"
| "prod_ok cfg (P_Store In_loop pc) i ps \<longleftrightarrow>
     0 \<le> i \<and> i < COUNT cfg \<and> ps = (if updated pc then [0..i] else [0..i - 1])"
| "prod_ok cfg (P_Store After_loop pc) i ps \<longleftrightarrow>
     ps = (if updated pc then [0..COUNT cfg - 1] @ [LIMIT cfg] else [0..COUNT cfg - 1])"
| "prod_ok cfg P_sleep i ps \<longleftrightarrow> 0 \<le> i \<and> i < COUNT cfg \<and> ps = [0..i]"
| "prod_ok cfg P_return i ps \<longleftrightarrow> ps = [0..COUNT cfg - 1] @ [LIMIT cfg]"

definition inv_prod :: "config \<Rightarrow> state \<Rightarrow> bool" where
  "inv_prod cfg s = prod_ok cfg (prod_pc s) (n s) (pushed s)"

fun cons_ok ::
  "config \<Rightarrow> cons_pc \<Rightarrow> int \<Rightarrow> int \<Rightarrow> int list \<Rightarrow> int list \<Rightarrow> int list \<Rightarrow> bool" where
  "cons_ok cfg C_unborn v w out qs rs \<longleftrightarrow> qs = [] \<and> out = [] \<and> rs = []"
| "cons_ok cfg (C_Get pc) v w out qs rs \<longleftrightarrow>
     rs = out \<and> LIMIT cfg \<notin> set out \<and> (if updated pc then qs = out @ [v] else qs = out)"
| "cons_ok cfg C_if v w out qs rs \<longleftrightarrow> qs = out @ [w] \<and> rs = qs \<and> LIMIT cfg \<notin> set out"
| "cons_ok cfg C_printf v w out qs rs \<longleftrightarrow>
     qs = out @ [w] \<and> rs = qs \<and> w \<noteq> LIMIT cfg \<and> LIMIT cfg \<notin> set out"
| "cons_ok cfg C_sleep v w out qs rs \<longleftrightarrow> qs = out \<and> rs = qs \<and> LIMIT cfg \<notin> set out"
| "cons_ok cfg C_return v w out qs rs \<longleftrightarrow>
     qs = out @ [LIMIT cfg] \<and> rs = qs \<and> LIMIT cfg \<notin> set out"

definition inv_cons :: "config \<Rightarrow> state \<Rightarrow> bool" where
  "inv_cons cfg s =
     cons_ok cfg (cons_pc s) (data s) (d s) (consumed (stdout s)) (popped s) (returned s)"

text \<open>
  The ring: \<^verbatim>\<open>read\<close> and \<^verbatim>\<open>write\<close> are the numbers of values read and stored modulo
  the capacity, fewer than \<^verbatim>\<open>BUFFER_SIZE\<close> values are stored and not yet read, the values
  read are the first values stored, and the \<open>k\<close>-th value stored is in slot
  \<open>k mod BUFFER_SIZE\<close> until it is read.
\<close>

definition inv_fifo :: "config \<Rightarrow> state \<Rightarrow> bool" where
  "inv_fifo cfg s \<longleftrightarrow>
     length (buffer (buf s)) = nat (BUFFER_SIZE cfg) \<and>
     read (buf s) = int (length (popped s)) mod BUFFER_SIZE cfg \<and>
     write (buf s) = int (length (pushed s)) mod BUFFER_SIZE cfg \<and>
     length (popped s) \<le> length (pushed s) \<and>
     int (length (pushed s)) - int (length (popped s)) < BUFFER_SIZE cfg \<and>
     popped s = take (length (popped s)) (pushed s) \<and>
     (\<forall>k. length (popped s) \<le> k \<and> k < length (pushed s) \<longrightarrow>
          buffer (buf s) ! nat (int k mod BUFFER_SIZE cfg) = pushed s ! k)"

text \<open>The number of values stored and not yet read.\<close>

definition held :: "state \<Rightarrow> int" where
  "held s = int (length (pushed s)) - int (length (popped s))"

definition inv :: "config \<Rightarrow> state \<Rightarrow> bool" where
  "inv cfg s \<longleftrightarrow>
     inv_life s \<and> inv_key s \<and> inv_wait cfg s \<and> inv_notFull cfg s \<and> inv_notEmpty s \<and>
     inv_prod cfg s \<and> inv_cons cfg s \<and> inv_fifo cfg s"

subsection \<open>Progress\<close>

text \<open>
  An action is enabled when it can be taken. The program has finished when \<^verbatim>\<open>main\<close>
  has returned. The sentinel must not be one of the values \<open>0, ..., COUNT - 1\<close>.
\<close>

definition enabled :: "config \<Rightarrow> action \<Rightarrow> state \<Rightarrow> bool" where
  "enabled cfg a s = (case step cfg a s of Next s' \<Rightarrow> True | _ \<Rightarrow> False)"

definition final :: "state \<Rightarrow> bool" where
  "final s \<longleftrightarrow> main_pc s = M_return"

definition no_collision :: "config \<Rightarrow> bool" where
  "no_collision cfg \<longleftrightarrow> LIMIT cfg < 0 \<or> COUNT cfg \<le> LIMIT cfg"

text \<open>
  The work left: a number that every step of a thread makes smaller and a spurious wake-up
  makes larger by at most 3. A thread taken off a queue has to go through the test
  again, which is paid for by the signal that took it off.
\<close>

fun queued :: "tid \<Rightarrow> cond \<Rightarrow> bool" where
  "queued t Cond_invalid = False"
| "queued t (Waiters ws) = (t \<in> set ws)"

fun cs_rank :: "cs_pc \<Rightarrow> bool \<Rightarrow> nat" where
  "cs_rank Lock q = 7"
| "cs_rank While q = 6"
| "cs_rank Wait q = 5"
| "cs_rank Wake q = (if q then 4 else 7)"
| "cs_rank Update q = 5"
| "cs_rank Signal q = 4"
| "cs_rank Unlock q = 0"

fun prod_rank :: "config \<Rightarrow> prod_pc \<Rightarrow> int \<Rightarrow> bool \<Rightarrow> nat" where
  "prod_rank cfg P_unborn i q = 11 * nat (COUNT cfg) + 11"
| "prod_rank cfg P_init i q = 11 * nat (COUNT cfg) + 11"
| "prod_rank cfg P_for i q = 11 * nat (COUNT cfg - i) + 10"
| "prod_rank cfg P_printf i q = 11 * nat (COUNT cfg - i) + 9"
| "prod_rank cfg (P_Store In_loop pc) i q = 11 * nat (COUNT cfg - i) + cs_rank pc q + 1"
| "prod_rank cfg P_sleep i q = 11 * nat (COUNT cfg - i)"
| "prod_rank cfg (P_Store After_loop pc) i q = cs_rank pc q + 1"
| "prod_rank cfg P_return i q = 0"

fun cons_rank :: "config \<Rightarrow> cons_pc \<Rightarrow> nat \<Rightarrow> bool \<Rightarrow> nat" where
  "cons_rank cfg C_unborn k q = 11 * (nat (COUNT cfg) + 1 - k) + 7"
| "cons_rank cfg (C_Get pc) k q =
     11 * (nat (COUNT cfg) + 1 - k) + cs_rank pc q + (if updated pc then 11 else 0)"
| "cons_rank cfg C_if k q = 11 * (nat (COUNT cfg) + 1 - k) + 10"
| "cons_rank cfg C_printf k q = 11 * (nat (COUNT cfg) + 1 - k) + 9"
| "cons_rank cfg C_sleep k q = 11 * (nat (COUNT cfg) + 1 - k) + 8"
| "cons_rank cfg C_return k q = 0"

fun main_rank :: "main_pc \<Rightarrow> nat" where
  "main_rank M_init = 9"
| "main_rank M_srand = 8"
| "main_rank M_create_a = 7"
| "main_rank M_create_b = 6"
| "main_rank M_join_a = 5"
| "main_rank M_join_b = 4"
| "main_rank M_destroy_notEmpty = 3"
| "main_rank M_destroy_notFull = 2"
| "main_rank M_destroy_key = 1"
| "main_rank M_return = 0"

definition work :: "config \<Rightarrow> state \<Rightarrow> nat" where
  "work cfg s =
     main_rank (main_pc s) +
     prod_rank cfg (prod_pc s) (n s) (queued th_b (notFull (buf s))) +
     cons_rank cfg (cons_pc s) (length (popped s)) (queued th_a (notEmpty (buf s)))"

fun thread_steps :: "action list \<Rightarrow> nat" where
  "thread_steps [] = 0"
| "thread_steps (Run t # as) = Suc (thread_steps as)"
| "thread_steps (Spurious t # as) = thread_steps as"

fun spurious_wakeups :: "action list \<Rightarrow> nat" where
  "spurious_wakeups [] = 0"
| "spurious_wakeups (Run t # as) = spurious_wakeups as"
| "spurious_wakeups (Spurious t # as) = Suc (spurious_wakeups as)"

definition bound :: "config \<Rightarrow> nat" where
  "bound cfg = 22 * nat (COUNT cfg) + 38"

subsection \<open>Example runs\<close>

text \<open>
  Schedules of the program with the constants of the source, and the states they lead
  to. In \<open>produce_item\<close> the producer goes once round its loop without waiting, in
  \<open>consume_item\<close> the consumer does. \<open>failing_config\<close> has the initialisation of the
  mutex fail with \<^verbatim>\<open>ENOMEM\<close>.
\<close>

definition startup :: "action list" where
  "startup = replicate 4 (Run main_thread)"

definition produce_item :: "action list" where
  "produce_item = replicate 8 (Run th_b)"

definition consume_item :: "action list" where
  "consume_item = replicate 8 (Run th_a)"

definition full_schedule :: "action list" where
  "full_schedule =
     startup @ [Run th_b] @ concat (replicate 11 (produce_item @ consume_item)) @
     replicate 6 (Run th_b) @ replicate 6 (Run th_a) @ replicate 5 (Run main_thread)"

definition blocking_schedule :: "action list" where
  "blocking_schedule =
     startup @ [Run th_b] @ concat (replicate 3 produce_item) @ replicate 5 (Run th_b)"

definition blocked_state :: state where
  "blocked_state =
     \<lparr>buf = \<lparr>buffer = [0, 1, 2, 0], key = Unlocked, read = 0, write = 3,
              notEmpty = Waiters [], notFull = Waiters [th_b]\<rparr>,
      main_pc = M_join_a, cons_pc = C_Get Lock, prod_pc = P_Store In_loop Wake, n = 3,
      data = 0, d = 0, stdout = [Produced 0, Produced 1, Produced 2, Produced 3],
      pushed = [0, 1, 2], popped = [], returned = []\<rparr>"

definition end_state :: state where
  "end_state =
     \<lparr>buf = \<lparr>buffer = [8, 9, 10, - 1], key = Mutex_invalid, read = 0, write = 0,
              notEmpty = Cond_invalid, notFull = Cond_invalid\<rparr>,
      main_pc = M_return, cons_pc = C_return, prod_pc = P_return, n = 11, data = - 1, d = - 1,
      stdout =
        [Produced 0, Consumed 0, Produced 1, Consumed 1, Produced 2, Consumed 2, Produced 3,
         Consumed 3, Produced 4, Consumed 4, Produced 5, Consumed 5, Produced 6, Consumed 6,
         Produced 7, Consumed 7, Produced 8, Consumed 8, Produced 9, Consumed 9, Produced 10,
         Consumed 10],
      pushed = [0, 1, 2, 3, 4, 5, 6, 7, 8, 9, 10, - 1],
      popped = [0, 1, 2, 3, 4, 5, 6, 7, 8, 9, 10, - 1],
      returned = [0, 1, 2, 3, 4, 5, 6, 7, 8, 9, 10, - 1]\<rparr>"

definition writing_schedule :: "action list" where
  "writing_schedule = startup @ [Run th_b] @ produce_item @ replicate 4 (Run th_b)"

definition writing_state :: state where
  "writing_state =
     \<lparr>buf = \<lparr>buffer = [0, 0, 0, 0], key = Locked th_b, read = 0, write = 1,
              notEmpty = Waiters [], notFull = Waiters []\<rparr>,
      main_pc = M_join_a, cons_pc = C_Get Lock, prod_pc = P_Store In_loop Update, n = 1,
      data = 0, d = 0, stdout = [Produced 0, Produced 1], pushed = [0], popped = [],
      returned = []\<rparr>"

definition reading_schedule :: "action list" where
  "reading_schedule =
     startup @ [Run th_b] @ produce_item @ produce_item @ consume_item @ replicate 2 (Run th_a)"

definition reading_state :: state where
  "reading_state =
     \<lparr>buf = \<lparr>buffer = [0, 1, 0, 0], key = Locked th_a, read = 1, write = 2,
              notEmpty = Waiters [], notFull = Waiters []\<rparr>,
      main_pc = M_join_a, cons_pc = C_Get Update, prod_pc = P_for, n = 2,
      data = 0, d = 0, stdout = [Produced 0, Produced 1, Consumed 0], pushed = [0, 1],
      popped = [0], returned = [0]\<rparr>"

definition starving_schedule :: "action list" where
  "starving_schedule = startup @ replicate 3 (Run th_a)"

definition starved_state :: state where
  "starved_state =
     \<lparr>buf = \<lparr>buffer = [0, 0, 0, 0], key = Unlocked, read = 0, write = 0,
              notEmpty = Waiters [th_a], notFull = Waiters []\<rparr>,
      main_pc = M_join_a, cons_pc = C_Get Wake, prod_pc = P_init, n = 0,
      data = 0, d = 0, stdout = [], pushed = [], popped = [], returned = []\<rparr>"

definition failing_config :: config where
  "failing_config = source_config\<lparr>key_rc := 12\<rparr>"

definition started :: "config \<Rightarrow> state" where
  "started cfg =
     (initial cfg)\<lparr>buf := init cfg (buf (initial cfg)), main_pc := M_join_a,
                    cons_pc := C_Get Lock, prod_pc := P_init\<rparr>"

definition failed_start_state :: state where
  "failed_start_state =
     \<lparr>buf = \<lparr>buffer = [0, 0, 0, 0], key = Mutex_invalid, read = 0, write = 0,
              notEmpty = Waiters [], notFull = Waiters []\<rparr>,
      main_pc = M_join_a, cons_pc = C_Get Lock, prod_pc = P_init, n = 0,
      data = 0, d = 0, stdout = [], pushed = [], popped = [], returned = []\<rparr>"

definition teardown_schedule :: "action list" where
  "teardown_schedule =
     startup @ [Run th_b] @ concat (replicate 11 (produce_item @ consume_item)) @
     replicate 6 (Run th_b) @ replicate 6 (Run th_a) @ replicate 2 (Run main_thread)"

definition teardown_state :: state where
  "teardown_state =
     end_state\<lparr>buf := (buf end_state)\<lparr>key := Unlocked, notEmpty := Waiters [],
                                      notFull := Waiters []\<rparr>,
               main_pc := M_destroy_notEmpty\<rparr>"

section \<open>Properties\<close>

subsection \<open>Steps of the threads\<close>

lemma map_outcome_Next_iff: "map_outcome f x = Next y \<longleftrightarrow> (\<exists>z. x = Next z \<and> y = f z)"
  by (cases x) auto

lemma lock_Next_iff: "pthread_mutex_lock t m = Next m' \<longleftrightarrow> m = Unlocked \<and> m' = Locked t"
  by (cases m) auto

lemma unlock_Next_iff: "pthread_mutex_unlock t m = Next m' \<longleftrightarrow> m = Locked t \<and> m' = Unlocked"
  by (auto simp: pthread_mutex_unlock_def)

lemma wait_enter_Next_iff:
  "cond_wait_enter t c m = Next r \<longleftrightarrow>
     (\<exists>ws. c = Waiters ws \<and> m = Locked t \<and> r = (Waiters (ws @ [t]), Unlocked))"
  by (cases c) auto

lemma wait_return_Next_iff:
  "cond_wait_return t c m = Next m' \<longleftrightarrow>
     (\<exists>ws. c = Waiters ws \<and> t \<notin> set ws \<and> m = Unlocked \<and> m' = Locked t)"
  by (cases c) (auto simp: lock_Next_iff)

lemma signal_Next_iff:
  "pthread_cond_signal c = Next c' \<longleftrightarrow> (\<exists>ws. c = Waiters ws \<and> c' = Waiters (tl ws))"
  by (cases c) auto

lemma cond_destroy_Next_iff:
  "pthread_cond_destroy c = Next c' \<longleftrightarrow> c = Waiters [] \<and> c' = Cond_invalid"
  by (cases c) auto

lemma mutex_destroy_Next_iff:
  "pthread_mutex_destroy m = Next m' \<longleftrightarrow> m = Unlocked \<and> m' = Mutex_invalid"
  by (cases m) auto

lemma spurious_Next_iff:
  "spurious t c = Next c' \<longleftrightarrow> (\<exists>ws. c = Waiters ws \<and> t \<in> set ws \<and> c' = Waiters (removeAll t ws))"
  by (cases c) auto

lemma Store_Next_iff:
  "Store cfg t v Lock b = Next x \<longleftrightarrow> key b = Unlocked \<and> x = (Some While, b\<lparr>key := Locked t\<rparr>)"
  "Store cfg t v While b = Next x \<longleftrightarrow>
     BUFFER_SIZE cfg \<noteq> 0 \<and> x = (if is_full cfg b then Some Wait else Some Update, b)"
  "Store cfg t v Wait b = Next x \<longleftrightarrow>
     (\<exists>ws. notFull b = Waiters ws \<and> key b = Locked t \<and>
           x = (Some Wake, b\<lparr>notFull := Waiters (ws @ [t]), key := Unlocked\<rparr>))"
  "Store cfg t v Wake b = Next x \<longleftrightarrow>
     (\<exists>ws. notFull b = Waiters ws \<and> t \<notin> set ws \<and> key b = Unlocked \<and>
           x = (Some While, b\<lparr>key := Locked t\<rparr>))"
  "Store cfg t v Update b = Next x \<longleftrightarrow>
     in_bounds (write b) (buffer b) \<and> x = (Some Signal, Store_update cfg v b)"
  "Store cfg t v Signal b = Next x \<longleftrightarrow>
     (\<exists>ws. notEmpty b = Waiters ws \<and> x = (Some Unlock, b\<lparr>notEmpty := Waiters (tl ws)\<rparr>))"
  "Store cfg t v Unlock b = Next x \<longleftrightarrow> key b = Locked t \<and> x = (None, b\<lparr>key := Unlocked\<rparr>)"
  by (auto simp: map_outcome_Next_iff lock_Next_iff unlock_Next_iff wait_enter_Next_iff
        wait_return_Next_iff signal_Next_iff)

lemma Get_Next_iff:
  "Get cfg t Lock v b = Next x \<longleftrightarrow> key b = Unlocked \<and> x = (Some While, v, b\<lparr>key := Locked t\<rparr>)"
  "Get cfg t While v b = Next x \<longleftrightarrow> x = (if is_empty b then Some Wait else Some Update, v, b)"
  "Get cfg t Wait v b = Next x \<longleftrightarrow>
     (\<exists>ws. notEmpty b = Waiters ws \<and> key b = Locked t \<and>
           x = (Some Wake, v, b\<lparr>notEmpty := Waiters (ws @ [t]), key := Unlocked\<rparr>))"
  "Get cfg t Wake v b = Next x \<longleftrightarrow>
     (\<exists>ws. notEmpty b = Waiters ws \<and> t \<notin> set ws \<and> key b = Unlocked \<and>
           x = (Some While, v, b\<lparr>key := Locked t\<rparr>))"
  "Get cfg t Update v b = Next x \<longleftrightarrow>
     in_bounds (read b) (buffer b) \<and> x = (Some Signal, fst (Get_update cfg b), snd (Get_update cfg b))"
  "Get cfg t Signal v b = Next x \<longleftrightarrow>
     (\<exists>ws. notFull b = Waiters ws \<and> x = (Some Unlock, v, b\<lparr>notFull := Waiters (tl ws)\<rparr>))"
  "Get cfg t Unlock v b = Next x \<longleftrightarrow> key b = Locked t \<and> x = (None, v, b\<lparr>key := Unlocked\<rparr>)"
  by (auto simp: map_outcome_Next_iff lock_Next_iff unlock_Next_iff wait_enter_Next_iff
        wait_return_Next_iff signal_Next_iff)

lemma Store_call_Next_iff:
  "Store_call cfg site pc s = Next s' \<longleftrightarrow>
     (\<exists>r b'. Store cfg th_b (Store_arg cfg site s) pc (buf s) = Next (r, b') \<and>
        s' = s\<lparr>buf := b', prod_pc := Store_next site r,
               pushed := (if pc = Update then pushed s @ [Store_arg cfg site s] else pushed s)\<rparr>)"
  by (auto simp: Store_call_def map_outcome_Next_iff)

lemma Producer_NextE [consumes 1, case_names init loop exit printf sleep Lock Full Free Wait Wake Update Signal Unlock]:
  assumes "Producer cfg s = Next s'"
  obtains
    "prod_pc s = P_init" "s' = s\<lparr>n := 0, prod_pc := P_for\<rparr>"
  | "prod_pc s = P_for" "n s < COUNT cfg" "s' = s\<lparr>prod_pc := P_printf\<rparr>"
  | "prod_pc s = P_for" "\<not> n s < COUNT cfg" "s' = s\<lparr>prod_pc := P_Store After_loop Lock\<rparr>"
  | "prod_pc s = P_printf"
      "s' = s\<lparr>stdout := stdout s @ [Produced (n s)], prod_pc := P_Store In_loop Lock\<rparr>"
  | "prod_pc s = P_sleep" "s' = s\<lparr>n := n s + 1, prod_pc := P_for\<rparr>"
  | site where "prod_pc s = P_Store site Lock" "key (buf s) = Unlocked"
      "s' = s\<lparr>buf := (buf s)\<lparr>key := Locked th_b\<rparr>, prod_pc := P_Store site While\<rparr>"
  | site where "prod_pc s = P_Store site While" "BUFFER_SIZE cfg \<noteq> 0" "is_full cfg (buf s)"
      "s' = s\<lparr>prod_pc := P_Store site Wait\<rparr>"
  | site where "prod_pc s = P_Store site While" "BUFFER_SIZE cfg \<noteq> 0" "\<not> is_full cfg (buf s)"
      "s' = s\<lparr>prod_pc := P_Store site Update\<rparr>"
  | site ws where "prod_pc s = P_Store site Wait" "notFull (buf s) = Waiters ws"
      "key (buf s) = Locked th_b"
      "s' = s\<lparr>buf := (buf s)\<lparr>notFull := Waiters (ws @ [th_b]), key := Unlocked\<rparr>,
              prod_pc := P_Store site Wake\<rparr>"
  | site ws where "prod_pc s = P_Store site Wake" "notFull (buf s) = Waiters ws" "th_b \<notin> set ws"
      "key (buf s) = Unlocked"
      "s' = s\<lparr>buf := (buf s)\<lparr>key := Locked th_b\<rparr>, prod_pc := P_Store site While\<rparr>"
  | site where "prod_pc s = P_Store site Update" "in_bounds (write (buf s)) (buffer (buf s))"
      "s' = s\<lparr>buf := Store_update cfg (Store_arg cfg site s) (buf s),
              prod_pc := P_Store site Signal,
              pushed := pushed s @ [Store_arg cfg site s]\<rparr>"
  | site ws where "prod_pc s = P_Store site Signal" "notEmpty (buf s) = Waiters ws"
      "s' = s\<lparr>buf := (buf s)\<lparr>notEmpty := Waiters (tl ws)\<rparr>, prod_pc := P_Store site Unlock\<rparr>"
  | site where "prod_pc s = P_Store site Unlock" "key (buf s) = Locked th_b"
      "s' = s\<lparr>buf := (buf s)\<lparr>key := Unlocked\<rparr>,
              prod_pc := (case site of In_loop \<Rightarrow> P_sleep | After_loop \<Rightarrow> P_return)\<rparr>"
proof (cases "prod_pc s")
  case P_unborn
  with assms show ?thesis by (simp add: Producer_def)
next
  case P_init
  with assms have "s' = s\<lparr>n := 0, prod_pc := P_for\<rparr>" by (simp add: Producer_def)
  with P_init show ?thesis by (rule that(1))
next
  case P_for
  show ?thesis
  proof (cases "n s < COUNT cfg")
    case True
    with assms P_for have "s' = s\<lparr>prod_pc := P_printf\<rparr>" by (simp add: Producer_def)
    with P_for True show ?thesis by (rule that(2))
  next
    case False
    with assms P_for have "s' = s\<lparr>prod_pc := P_Store After_loop Lock\<rparr>"
      by (simp add: Producer_def)
    with P_for False show ?thesis by (rule that(3))
  qed
next
  case P_printf
  with assms
  have "s' = s\<lparr>stdout := stdout s @ [Produced (n s)], prod_pc := P_Store In_loop Lock\<rparr>"
    by (simp add: Producer_def)
  with P_printf show ?thesis by (rule that(4))
next
  case P_sleep
  with assms have "s' = s\<lparr>n := n s + 1, prod_pc := P_for\<rparr>" by (simp add: Producer_def)
  with P_sleep show ?thesis by (rule that(5))
next
  case P_return
  with assms show ?thesis by (simp add: Producer_def)
next
  case (P_Store site pc)
  with assms have "Store_call cfg site pc s = Next s'" by (simp add: Producer_def)
  then obtain r b' where
    st: "Store cfg th_b (Store_arg cfg site s) pc (buf s) = Next (r, b')" and
    s': "s' = s\<lparr>buf := b', prod_pc := Store_next site r,
               pushed := (if pc = Update then pushed s @ [Store_arg cfg site s] else pushed s)\<rparr>"
    unfolding Store_call_Next_iff by blast
  show ?thesis
  proof (cases pc)
    case Lock
    with st have "key (buf s) = Unlocked" "r = Some While" "b' = (buf s)\<lparr>key := Locked th_b\<rparr>"
      by (simp_all add: Store_Next_iff del: Store.simps)
    with s' Lock P_Store show ?thesis by (intro that(6)) (simp_all add: Store_next_def)
  next
    case While
    with st have n0: "BUFFER_SIZE cfg \<noteq> 0" and
      r: "r = (if is_full cfg (buf s) then Some Wait else Some Update)" and b': "b' = buf s"
      by (simp_all add: Store_Next_iff del: Store.simps)
    show ?thesis
    proof (cases "is_full cfg (buf s)")
      case True
      with s' While P_Store n0 r b' show ?thesis by (intro that(7)) (simp_all add: Store_next_def)
    next
      case False
      with s' While P_Store n0 r b' show ?thesis by (intro that(8)) (simp_all add: Store_next_def)
    qed
  next
    case Wait
    with st obtain ws where "notFull (buf s) = Waiters ws" "key (buf s) = Locked th_b"
      "r = Some Wake" "b' = (buf s)\<lparr>notFull := Waiters (ws @ [th_b]), key := Unlocked\<rparr>"
      by (auto simp add: Store_Next_iff simp del: Store.simps)
    with s' Wait P_Store show ?thesis by (intro that(9)) (simp_all add: Store_next_def)
  next
    case Wake
    with st obtain ws where "notFull (buf s) = Waiters ws" "th_b \<notin> set ws"
      "key (buf s) = Unlocked" "r = Some While" "b' = (buf s)\<lparr>key := Locked th_b\<rparr>"
      by (auto simp add: Store_Next_iff simp del: Store.simps)
    with s' Wake P_Store show ?thesis by (intro that(10)) (simp_all add: Store_next_def)
  next
    case Update
    with st have "in_bounds (write (buf s)) (buffer (buf s))" "r = Some Signal"
      "b' = Store_update cfg (Store_arg cfg site s) (buf s)"
      by (simp_all add: Store_Next_iff del: Store.simps)
    with s' Update P_Store show ?thesis by (intro that(11)) (simp_all add: Store_next_def)
  next
    case Signal
    with st obtain ws where "notEmpty (buf s) = Waiters ws" "r = Some Unlock"
      "b' = (buf s)\<lparr>notEmpty := Waiters (tl ws)\<rparr>"
      by (auto simp add: Store_Next_iff simp del: Store.simps)
    with s' Signal P_Store show ?thesis by (intro that(12)) (simp_all add: Store_next_def)
  next
    case Unlock
    with st have "key (buf s) = Locked th_b" "r = None" "b' = (buf s)\<lparr>key := Unlocked\<rparr>"
      by (simp_all add: Store_Next_iff del: Store.simps)
    with s' Unlock P_Store show ?thesis by (intro that(13)) (simp_all add: Store_next_def)
  qed
qed

lemma Get_call_Next_iff:
  "Get_call cfg pc s = Next s' \<longleftrightarrow>
     (\<exists>r v b'. Get cfg th_a pc (data s) (buf s) = Next (r, v, b') \<and>
        s' = (case r of
                Some pc'' \<Rightarrow>
                  s\<lparr>buf := b', cons_pc := C_Get pc'', data := v,
                    popped := (if pc = Update then popped s @ [v] else popped s)\<rparr>
              | None \<Rightarrow>
                  s\<lparr>buf := b', cons_pc := C_if, data := v, d := v,
                    returned := returned s @ [v]\<rparr>))"
  by (auto simp: Get_call_def map_outcome_Next_iff)

lemma Consumer_NextE [consumes 1, case_names stop go printf sleep Lock Empty Nonempty Wait Wake Update Signal Unlock]:
  assumes "Consumer cfg s = Next s'"
  obtains
    "cons_pc s = C_if" "d s = LIMIT cfg" "s' = s\<lparr>cons_pc := C_return\<rparr>"
  | "cons_pc s = C_if" "d s \<noteq> LIMIT cfg" "s' = s\<lparr>cons_pc := C_printf\<rparr>"
  | "cons_pc s = C_printf" "s' = s\<lparr>stdout := stdout s @ [Consumed (d s)], cons_pc := C_sleep\<rparr>"
  | "cons_pc s = C_sleep" "s' = s\<lparr>cons_pc := C_Get Lock\<rparr>"
  | "cons_pc s = C_Get Lock" "key (buf s) = Unlocked"
      "s' = s\<lparr>buf := (buf s)\<lparr>key := Locked th_a\<rparr>, cons_pc := C_Get While\<rparr>"
  | "cons_pc s = C_Get While" "is_empty (buf s)" "s' = s\<lparr>cons_pc := C_Get Wait\<rparr>"
  | "cons_pc s = C_Get While" "\<not> is_empty (buf s)" "s' = s\<lparr>cons_pc := C_Get Update\<rparr>"
  | ws where "cons_pc s = C_Get Wait" "notEmpty (buf s) = Waiters ws" "key (buf s) = Locked th_a"
      "s' = s\<lparr>buf := (buf s)\<lparr>notEmpty := Waiters (ws @ [th_a]), key := Unlocked\<rparr>,
              cons_pc := C_Get Wake\<rparr>"
  | ws where "cons_pc s = C_Get Wake" "notEmpty (buf s) = Waiters ws" "th_a \<notin> set ws"
      "key (buf s) = Unlocked"
      "s' = s\<lparr>buf := (buf s)\<lparr>key := Locked th_a\<rparr>, cons_pc := C_Get While\<rparr>"
  | "cons_pc s = C_Get Update" "in_bounds (read (buf s)) (buffer (buf s))"
      "s' = s\<lparr>buf := snd (Get_update cfg (buf s)), cons_pc := C_Get Signal,
              data := fst (Get_update cfg (buf s)),
              popped := popped s @ [fst (Get_update cfg (buf s))]\<rparr>"
  | ws where "cons_pc s = C_Get Signal" "notFull (buf s) = Waiters ws"
      "s' = s\<lparr>buf := (buf s)\<lparr>notFull := Waiters (tl ws)\<rparr>, cons_pc := C_Get Unlock\<rparr>"
  | "cons_pc s = C_Get Unlock" "key (buf s) = Locked th_a"
      "s' = s\<lparr>buf := (buf s)\<lparr>key := Unlocked\<rparr>, cons_pc := C_if, d := data s,
              returned := returned s @ [data s]\<rparr>"
proof (cases "cons_pc s")
  case C_unborn
  with assms show ?thesis by (simp add: Consumer_def)
next
  case C_if
  show ?thesis
  proof (cases "d s = LIMIT cfg")
    case True
    with assms C_if have "s' = s\<lparr>cons_pc := C_return\<rparr>" by (simp add: Consumer_def)
    with C_if True show ?thesis by (rule that(1))
  next
    case False
    with assms C_if have "s' = s\<lparr>cons_pc := C_printf\<rparr>" by (simp add: Consumer_def)
    with C_if False show ?thesis by (rule that(2))
  qed
next
  case C_printf
  with assms have "s' = s\<lparr>stdout := stdout s @ [Consumed (d s)], cons_pc := C_sleep\<rparr>"
    by (simp add: Consumer_def)
  with C_printf show ?thesis by (rule that(3))
next
  case C_sleep
  with assms have "s' = s\<lparr>cons_pc := C_Get Lock\<rparr>" by (simp add: Consumer_def)
  with C_sleep show ?thesis by (rule that(4))
next
  case C_return
  with assms show ?thesis by (simp add: Consumer_def)
next
  case (C_Get pc)
  with assms have "Get_call cfg pc s = Next s'" by (simp add: Consumer_def)
  then obtain r v b' where
    st: "Get cfg th_a pc (data s) (buf s) = Next (r, v, b')" and
    s': "s' = (case r of
                Some pc'' \<Rightarrow>
                  s\<lparr>buf := b', cons_pc := C_Get pc'', data := v,
                    popped := (if pc = Update then popped s @ [v] else popped s)\<rparr>
              | None \<Rightarrow>
                  s\<lparr>buf := b', cons_pc := C_if, data := v, d := v,
                    returned := returned s @ [v]\<rparr>)"
    unfolding Get_call_Next_iff by blast
  show ?thesis
  proof (cases pc)
    case Lock
    with st have "key (buf s) = Unlocked" "r = Some While" "v = data s"
      "b' = (buf s)\<lparr>key := Locked th_a\<rparr>"
      by (simp_all add: Get_Next_iff del: Get.simps)
    with s' Lock C_Get show ?thesis by (intro that(5)) simp_all
  next
    case While
    with st have r: "r = (if is_empty (buf s) then Some Wait else Some Update)"
      and b': "v = data s" "b' = buf s"
      by (simp_all add: Get_Next_iff del: Get.simps)
    show ?thesis
    proof (cases "is_empty (buf s)")
      case True
      with s' While C_Get r b' show ?thesis by (intro that(6)) simp_all
    next
      case False
      with s' While C_Get r b' show ?thesis by (intro that(7)) simp_all
    qed
  next
    case Wait
    with st obtain ws where "notEmpty (buf s) = Waiters ws" "key (buf s) = Locked th_a"
      "r = Some Wake" "v = data s"
      "b' = (buf s)\<lparr>notEmpty := Waiters (ws @ [th_a]), key := Unlocked\<rparr>"
      by (auto simp add: Get_Next_iff simp del: Get.simps)
    with s' Wait C_Get show ?thesis by (intro that(8)) simp_all
  next
    case Wake
    with st obtain ws where "notEmpty (buf s) = Waiters ws" "th_a \<notin> set ws"
      "key (buf s) = Unlocked" "r = Some While" "v = data s"
      "b' = (buf s)\<lparr>key := Locked th_a\<rparr>"
      by (auto simp add: Get_Next_iff simp del: Get.simps)
    with s' Wake C_Get show ?thesis by (intro that(9)) simp_all
  next
    case Update
    with st have "in_bounds (read (buf s)) (buffer (buf s))" "r = Some Signal"
      "v = fst (Get_update cfg (buf s))" "b' = snd (Get_update cfg (buf s))"
      by (simp_all add: Get_Next_iff prod_eq_iff del: Get.simps)
    with s' Update C_Get show ?thesis by (intro that(10)) simp_all
  next
    case Signal
    with st obtain ws where "notFull (buf s) = Waiters ws" "r = Some Unlock" "v = data s"
      "b' = (buf s)\<lparr>notFull := Waiters (tl ws)\<rparr>"
      by (auto simp add: Get_Next_iff simp del: Get.simps)
    with s' Signal C_Get show ?thesis by (intro that(11)) simp_all
  next
    case Unlock
    with st have "key (buf s) = Locked th_a" "r = None" "v = data s"
      "b' = (buf s)\<lparr>key := Unlocked\<rparr>"
      by (simp_all add: Get_Next_iff del: Get.simps)
    with s' Unlock C_Get show ?thesis by (intro that(12)) simp_all
  qed
qed

lemma main_NextE [consumes 1, case_names init srand create_a create_b join_a join_b destroy_notEmpty destroy_notFull destroy_key]:
  assumes "main cfg s = Next s'"
  obtains
    "main_pc s = M_init" "s' = s\<lparr>buf := init cfg (buf s), main_pc := M_srand\<rparr>"
  | "main_pc s = M_srand" "s' = s\<lparr>main_pc := M_create_a\<rparr>"
  | "main_pc s = M_create_a" "s' = s\<lparr>cons_pc := C_Get Lock, main_pc := M_create_b\<rparr>"
  | "main_pc s = M_create_b" "s' = s\<lparr>prod_pc := P_init, main_pc := M_join_a\<rparr>"
  | "main_pc s = M_join_a" "cons_pc s = C_return" "s' = s\<lparr>main_pc := M_join_b\<rparr>"
  | "main_pc s = M_join_b" "prod_pc s = P_return" "s' = s\<lparr>main_pc := M_destroy_notEmpty\<rparr>"
  | "main_pc s = M_destroy_notEmpty" "notEmpty (buf s) = Waiters []"
      "s' = s\<lparr>buf := (buf s)\<lparr>notEmpty := Cond_invalid\<rparr>, main_pc := M_destroy_notFull\<rparr>"
  | "main_pc s = M_destroy_notFull" "notFull (buf s) = Waiters []"
      "s' = s\<lparr>buf := (buf s)\<lparr>notFull := Cond_invalid\<rparr>, main_pc := M_destroy_key\<rparr>"
  | "main_pc s = M_destroy_key" "key (buf s) = Unlocked"
      "s' = s\<lparr>buf := (buf s)\<lparr>key := Mutex_invalid\<rparr>, main_pc := M_return\<rparr>"
proof (cases "main_pc s")
  case M_init
  with assms have "s' = s\<lparr>buf := init cfg (buf s), main_pc := M_srand\<rparr>" by (simp add: main_def)
  with M_init show ?thesis by (rule that(1))
next
  case M_srand
  with assms have "s' = s\<lparr>main_pc := M_create_a\<rparr>" by (simp add: main_def)
  with M_srand show ?thesis by (rule that(2))
next
  case M_create_a
  with assms have "s' = s\<lparr>cons_pc := C_Get Lock, main_pc := M_create_b\<rparr>" by (simp add: main_def)
  with M_create_a show ?thesis by (rule that(3))
next
  case M_create_b
  with assms have "s' = s\<lparr>prod_pc := P_init, main_pc := M_join_a\<rparr>" by (simp add: main_def)
  with M_create_b show ?thesis by (rule that(4))
next
  case M_join_a
  with assms have "cons_pc s = C_return" "s' = s\<lparr>main_pc := M_join_b\<rparr>"
    by (simp_all add: main_def split: if_splits)
  with M_join_a show ?thesis by (rule that(5))
next
  case M_join_b
  with assms have "prod_pc s = P_return" "s' = s\<lparr>main_pc := M_destroy_notEmpty\<rparr>"
    by (simp_all add: main_def split: if_splits)
  with M_join_b show ?thesis by (rule that(6))
next
  case M_destroy_notEmpty
  with assms have "notEmpty (buf s) = Waiters []"
    "s' = s\<lparr>buf := (buf s)\<lparr>notEmpty := Cond_invalid\<rparr>, main_pc := M_destroy_notFull\<rparr>"
    by (simp_all add: main_def map_outcome_Next_iff cond_destroy_Next_iff)
  with M_destroy_notEmpty show ?thesis by (rule that(7))
next
  case M_destroy_notFull
  with assms have "notFull (buf s) = Waiters []"
    "s' = s\<lparr>buf := (buf s)\<lparr>notFull := Cond_invalid\<rparr>, main_pc := M_destroy_key\<rparr>"
    by (simp_all add: main_def map_outcome_Next_iff cond_destroy_Next_iff)
  with M_destroy_notFull show ?thesis by (rule that(8))
next
  case M_destroy_key
  with assms have "key (buf s) = Unlocked"
    "s' = s\<lparr>buf := (buf s)\<lparr>key := Mutex_invalid\<rparr>, main_pc := M_return\<rparr>"
    by (simp_all add: main_def map_outcome_Next_iff mutex_destroy_Next_iff)
  with M_destroy_key show ?thesis by (rule that(9))
next
  case M_return
  with assms show ?thesis by (simp add: main_def)
qed

lemma wake_spuriously_NextE [consumes 1, case_names notFull notEmpty]:
  assumes "wake_spuriously t s = Next s'"
  obtains
    ws where "notFull (buf s) = Waiters ws" "t \<in> set ws"
      "s' = s\<lparr>buf := (buf s)\<lparr>notFull := Waiters (removeAll t ws)\<rparr>\<rparr>"
  | ws where "notEmpty (buf s) = Waiters ws" "t \<in> set ws"
      "s' = s\<lparr>buf := (buf s)\<lparr>notEmpty := Waiters (removeAll t ws)\<rparr>\<rparr>"
proof (cases "spurious t (notFull (buf s))")
  case (Next c)
  then obtain ws where "notFull (buf s) = Waiters ws" "t \<in> set ws" "c = Waiters (removeAll t ws)"
    unfolding spurious_Next_iff by blast
  moreover from assms Next have "s' = s\<lparr>buf := (buf s)\<lparr>notFull := c\<rparr>\<rparr>"
    by (simp add: wake_spuriously_def)
  ultimately show ?thesis by (intro that(1)) simp_all
next
  case Disabled
  with assms obtain c where c: "spurious t (notEmpty (buf s)) = Next c"
    and s': "s' = s\<lparr>buf := (buf s)\<lparr>notEmpty := c\<rparr>\<rparr>"
    by (auto simp: wake_spuriously_def map_outcome_Next_iff)
  from c obtain ws where "notEmpty (buf s) = Waiters ws" "t \<in> set ws" "c = Waiters (removeAll t ws)"
    unfolding spurious_Next_iff by blast
  with s' show ?thesis by (intro that(2)) simp_all
next
  case Fault
  with assms obtain c where c: "spurious t (notEmpty (buf s)) = Next c"
    and s': "s' = s\<lparr>buf := (buf s)\<lparr>notEmpty := c\<rparr>\<rparr>"
    by (auto simp: wake_spuriously_def map_outcome_Next_iff)
  from c obtain ws where "notEmpty (buf s) = Waiters ws" "t \<in> set ws" "c = Waiters (removeAll t ws)"
    unfolding spurious_Next_iff by blast
  with s' show ?thesis by (intro that(2)) simp_all
qed

subsection \<open>The invariants are preserved by every step\<close>

lemma inv_life_step:
  assumes "inv_life s" "step cfg a s = Next s'"
  shows "inv_life s'"
proof (cases a)
  case (Run t)
  show ?thesis
  proof (cases t)
    case main_thread
    with Run assms(2) have "main cfg s = Next s'" by simp
    then show ?thesis using assms(1)
      by (cases rule: main_NextE) (auto simp: inv_life_def)
  next
    case th_a
    with Run assms(2) have "Consumer cfg s = Next s'" by simp
    then show ?thesis using assms(1)
      by (cases rule: Consumer_NextE) (auto simp: inv_life_def)
  next
    case th_b
    with Run assms(2) have "Producer cfg s = Next s'" by simp
    then show ?thesis using assms(1)
      by (cases rule: Producer_NextE) (auto simp: inv_life_def split: call_site.splits)
  qed
next
  case (Spurious t)
  with assms(2) have "wake_spuriously t s = Next s'" by simp
  then show ?thesis using assms(1)
    by (cases rule: wake_spuriously_NextE) (auto simp: inv_life_def)
qed

lemma inv_key_step:
  assumes "well_configured cfg" "inv_life s" "inv_key s" "step cfg a s = Next s'"
  shows "inv_key s'"
proof (cases a)
  case (Run t)
  show ?thesis
  proof (cases t)
    case main_thread
    with Run assms(4) have "main cfg s = Next s'" by simp
    then show ?thesis using assms(1-3)
      by (cases rule: main_NextE)
         (auto simp: inv_life_def inv_key_def init_def well_configured_def
            pthread_mutex_init_def)
  next
    case th_a
    with Run assms(4) have "Consumer cfg s = Next s'" by simp
    then show ?thesis using assms(1-3)
      by (cases rule: Consumer_NextE)
         (auto simp: inv_life_def inv_key_def Get_update_def Let_def split: if_splits)
  next
    case th_b
    with Run assms(4) have "Producer cfg s = Next s'" by simp
    then show ?thesis using assms(1-3)
      by (cases rule: Producer_NextE)
         (auto simp: inv_life_def inv_key_def Store_update_def Let_def
            split: call_site.splits if_splits)
  qed
next
  case (Spurious t)
  with assms(4) have "wake_spuriously t s = Next s'" by simp
  then show ?thesis using assms(1-3)
    by (cases rule: wake_spuriously_NextE) (auto simp: inv_key_def)
qed

lemma step_NextE [consumes 1, case_names main Consumer Producer Spurious]:
  assumes "step cfg a s = Next s'"
  obtains "main cfg s = Next s'" | "Consumer cfg s = Next s'" | "Producer cfg s = Next s'"
  | t where "wake_spuriously t s = Next s'"
proof (cases a)
  case (Run t)
  with assms that(1-3) show ?thesis by (cases t) simp_all
next
  case (Spurious t)
  with assms that(4) show ?thesis by simp
qed

lemma consumed_append [simp]: "consumed (xs @ ys) = consumed xs @ consumed ys"
  by (induction xs rule: consumed.induct) simp_all

lemma Store_update_simps [simp]:
  "buffer (Store_update cfg v b) = (buffer b)[nat (write b) := v]"
  "write (Store_update cfg v b) = (if BUFFER_SIZE cfg \<le> write b + 1 then 0 else write b + 1)"
  "read (Store_update cfg v b) = read b"
  "key (Store_update cfg v b) = key b"
  "notEmpty (Store_update cfg v b) = notEmpty b"
  "notFull (Store_update cfg v b) = notFull b"
  by (simp_all add: Store_update_def Let_def)

lemma Get_update_simps [simp]:
  "fst (Get_update cfg b) = buffer b ! nat (read b)"
  "buffer (snd (Get_update cfg b)) = buffer b"
  "read (snd (Get_update cfg b)) = (if BUFFER_SIZE cfg \<le> read b + 1 then 0 else read b + 1)"
  "write (snd (Get_update cfg b)) = write b"
  "key (snd (Get_update cfg b)) = key b"
  "notEmpty (snd (Get_update cfg b)) = notEmpty b"
  "notFull (snd (Get_update cfg b)) = notFull b"
  by (simp_all add: Get_update_def Let_def)

lemma inv_prod_step:
  assumes "inv_life s" "inv_prod cfg s" "step cfg a s = Next s'"
  shows "inv_prod cfg s'"
  using assms(3)
proof (cases rule: step_NextE)
  case main
  then show ?thesis using assms(1,2)
    by (cases rule: main_NextE) (simp_all add: inv_prod_def inv_life_def)
next
  case Consumer
  then show ?thesis using assms(2)
    by (cases rule: Consumer_NextE) (simp_all add: inv_prod_def)
next
  case Producer
  then show ?thesis
  proof (cases rule: Producer_NextE)
    case init
    with assms(2) show ?thesis by (simp add: inv_prod_def)
  next
    case loop
    with assms(2) show ?thesis by (simp add: inv_prod_def)
  next
    case exit
    with assms(2) show ?thesis by (auto simp: inv_prod_def)
  next
    case printf
    with assms(2) show ?thesis by (simp add: inv_prod_def)
  next
    case sleep
    with assms(2) show ?thesis by (simp add: inv_prod_def)
  next
    case (Lock site)
    with assms(2) show ?thesis by (cases site) (simp_all add: inv_prod_def)
  next
    case (Full site)
    with assms(2) show ?thesis by (cases site) (simp_all add: inv_prod_def)
  next
    case (Free site)
    with assms(2) show ?thesis by (cases site) (simp_all add: inv_prod_def)
  next
    case (Wait site ws)
    with assms(2) show ?thesis by (cases site) (simp_all add: inv_prod_def)
  next
    case (Wake site ws)
    with assms(2) show ?thesis by (cases site) (simp_all add: inv_prod_def)
  next
    case (Update site)
    with assms(2) show ?thesis
      by (cases site) (simp_all add: inv_prod_def Store_arg_def upto_rec2)
  next
    case (Signal site ws)
    with assms(2) show ?thesis by (cases site) (simp_all add: inv_prod_def)
  next
    case (Unlock site)
    with assms(2) show ?thesis by (cases site) (simp_all add: inv_prod_def)
  qed
next
  case (Spurious t)
  then show ?thesis using assms(2)
    by (cases rule: wake_spuriously_NextE) (simp_all add: inv_prod_def)
qed

lemma inv_cons_step:
  assumes "inv_life s" "inv_cons cfg s" "step cfg a s = Next s'"
  shows "inv_cons cfg s'"
  using assms(3)
proof (cases rule: step_NextE)
  case main
  then show ?thesis using assms(1,2)
    by (cases rule: main_NextE) (simp_all add: inv_cons_def inv_life_def)
next
  case Consumer
  then show ?thesis using assms(2)
    by (cases rule: Consumer_NextE) (simp_all add: inv_cons_def)
next
  case Producer
  then show ?thesis using assms(2)
    by (cases rule: Producer_NextE) (simp_all add: inv_cons_def)
next
  case (Spurious t)
  then show ?thesis using assms(2)
    by (cases rule: wake_spuriously_NextE) (simp_all add: inv_cons_def)
qed

lemma in_Store_eq [simp]: "in_Store (\<lambda>pc. pc = c) p \<longleftrightarrow> (\<exists>site. p = P_Store site c)"
  by (cases p) auto

lemma in_Get_eq [simp]: "in_Get (\<lambda>pc. pc = c) p \<longleftrightarrow> p = C_Get c"
  by (cases p) auto

lemma inv_wait_step:
  assumes "inv_life s" "inv_key s" "inv_wait cfg s" "step cfg a s = Next s'"
  shows "inv_wait cfg s'"
  using assms(4)
proof (cases rule: step_NextE)
  case main
  then show ?thesis using assms(1-3)
    by (cases rule: main_NextE) (auto simp: inv_wait_def inv_life_def is_full_def is_empty_def)
next
  case Consumer
  then show ?thesis using assms(1-3)
    by (cases rule: Consumer_NextE)
       (auto simp: inv_wait_def inv_key_def is_full_def is_empty_def split: if_splits)
next
  case Producer
  then show ?thesis using assms(1-3)
    by (cases rule: Producer_NextE)
       (auto simp: inv_wait_def inv_key_def is_full_def is_empty_def
          split: if_splits call_site.splits)
next
  case (Spurious t)
  then show ?thesis using assms(3)
    by (cases rule: wake_spuriously_NextE) (auto simp: inv_wait_def is_full_def is_empty_def)
qed

lemma inv_notFull_step:
  assumes "well_configured cfg" "inv_life s" "inv_key s" "inv_wait cfg s" "inv_notFull cfg s"
    "step cfg a s = Next s'"
  shows "inv_notFull cfg s'"
  using assms(6)
proof (cases rule: step_NextE)
  case main
  then show ?thesis using assms(1-5)
    by (cases rule: main_NextE)
       (auto simp: inv_notFull_def inv_life_def init_def pthread_cond_init_def
          well_configured_def is_full_def)
next
  case Consumer
  then show ?thesis using assms(1-5)
    by (cases rule: Consumer_NextE)
       (auto simp: inv_notFull_def inv_key_def is_full_def split: if_splits)
next
  case Producer
  then show ?thesis using assms(1-5)
    by (cases rule: Producer_NextE)
       (auto simp: inv_notFull_def inv_key_def inv_wait_def is_full_def
          split: if_splits call_site.splits)
next
  case (Spurious t)
  then show ?thesis using assms(5)
    by (cases rule: wake_spuriously_NextE) (auto simp: inv_notFull_def is_full_def split: if_splits)
qed

lemma inv_notEmpty_step:
  assumes "well_configured cfg" "inv_life s" "inv_key s" "inv_wait cfg s" "inv_notEmpty s"
    "step cfg a s = Next s'"
  shows "inv_notEmpty s'"
  using assms(6)
proof (cases rule: step_NextE)
  case main
  then show ?thesis using assms(1-5)
    by (cases rule: main_NextE)
       (auto simp: inv_notEmpty_def inv_life_def init_def pthread_cond_init_def
          well_configured_def is_empty_def)
next
  case Consumer
  then show ?thesis using assms(1-5)
    by (cases rule: Consumer_NextE)
       (auto simp: inv_notEmpty_def inv_key_def inv_wait_def is_empty_def split: if_splits)
next
  case Producer
  then show ?thesis using assms(1-5)
    by (cases rule: Producer_NextE)
       (auto simp: inv_notEmpty_def inv_key_def is_empty_def
          split: if_splits call_site.splits)
next
  case (Spurious t)
  then show ?thesis using assms(5)
    by (cases rule: wake_spuriously_NextE) (auto simp: inv_notEmpty_def is_empty_def split: if_splits)
qed

subsection \<open>The arithmetic of the ring\<close>

lemma c_rem_nonneg: "0 \<le> a \<Longrightarrow> 0 < b \<Longrightarrow> c_rem a b = a mod b"
  by (cases "a = 0") (simp_all add: c_rem_def)

lemma wrap_mod:
  fixes P N :: int
  assumes "0 < N"
  shows "(if N \<le> P mod N + 1 then 0 else P mod N + 1) = (P + 1) mod N"
proof -
  have eq: "(P + 1) mod N = (P mod N + 1) mod N" by (simp add: mod_add_left_eq)
  have bounds: "0 \<le> P mod N" "P mod N < N" using assms by simp_all
  show ?thesis
  proof (cases "N \<le> P mod N + 1")
    case True
    with bounds have "P mod N + 1 = N" by linarith
    with True eq show ?thesis by simp
  next
    case False
    with bounds eq show ?thesis by simp
  qed
qed

lemma mod_eq_close:
  fixes a b N :: int
  assumes "a mod N = b mod N" "\<bar>a - b\<bar> < N"
  shows "a = b"
proof (rule ccontr)
  assume "a \<noteq> b"
  then have "a - b \<noteq> 0" by simp
  moreover from assms(1) have "N dvd a - b" by (simp add: mod_eq_dvd_iff)
  ultimately have "\<bar>N\<bar> \<le> \<bar>a - b\<bar>" by (rule dvd_imp_le_int)
  with assms(2) show False by linarith
qed

lemma full_iff:
  assumes "0 < BUFFER_SIZE cfg" "inv_fifo cfg s"
  shows "is_full cfg (buf s) \<longleftrightarrow>
    int (length (pushed s)) - int (length (popped s)) = BUFFER_SIZE cfg - 1"
proof -
  let ?N = "BUFFER_SIZE cfg" and ?P = "int (length (pushed s))" and ?Q = "int (length (popped s))"
  from assms(2) have w: "write (buf s) = ?P mod ?N" and r: "read (buf s) = ?Q mod ?N"
    and le: "?Q \<le> ?P" and lt: "?P - ?Q < ?N"
    by (simp_all add: inv_fifo_def)
  have "0 \<le> write (buf s) + 1" using w assms(1) by simp
  then have "c_rem (write (buf s) + 1) ?N = (write (buf s) + 1) mod ?N"
    using assms(1) by (rule c_rem_nonneg)
  also have "\<dots> = (?P + 1) mod ?N" by (simp add: w mod_add_left_eq)
  finally have full: "is_full cfg (buf s) \<longleftrightarrow> (?P + 1) mod ?N = ?Q mod ?N"
    by (simp add: is_full_def r)
  show ?thesis
  proof
    assume "is_full cfg (buf s)"
    with full have "(?P + 1) mod ?N = (?Q + ?N) mod ?N" by simp
    moreover have "\<bar>(?P + 1) - (?Q + ?N)\<bar> < ?N" using le lt by linarith
    ultimately have "?P + 1 = ?Q + ?N" by (rule mod_eq_close)
    then show "?P - ?Q = ?N - 1" by linarith
  next
    assume "?P - ?Q = ?N - 1"
    then have "?P + 1 = ?Q + ?N" by linarith
    then have "(?P + 1) mod ?N = (?Q + ?N) mod ?N" by simp
    with full show "is_full cfg (buf s)" by simp
  qed
qed

lemma empty_iff:
  assumes "inv_fifo cfg s"
  shows "is_empty (buf s) \<longleftrightarrow> length (pushed s) = length (popped s)"
proof -
  let ?N = "BUFFER_SIZE cfg" and ?P = "int (length (pushed s))" and ?Q = "int (length (popped s))"
  from assms have w: "write (buf s) = ?P mod ?N" and r: "read (buf s) = ?Q mod ?N"
    and le: "?Q \<le> ?P" and lt: "?P - ?Q < ?N"
    by (simp_all add: inv_fifo_def)
  show ?thesis
  proof
    assume "is_empty (buf s)"
    with w r have "?P mod ?N = ?Q mod ?N" by (simp add: is_empty_def)
    moreover have "\<bar>?P - ?Q\<bar> < ?N" using le lt by linarith
    ultimately have "?P = ?Q" by (rule mod_eq_close)
    then show "length (pushed s) = length (popped s)" by simp
  next
    assume "length (pushed s) = length (popped s)"
    with w r show "is_empty (buf s)" by (simp add: is_empty_def)
  qed
qed

lemma inv_fifo_Store:
  assumes N: "0 < BUFFER_SIZE cfg" and inv: "inv_fifo cfg s" and free: "\<not> is_full cfg (buf s)"
    and b': "buf s' = Store_update cfg v (buf s)" and p': "pushed s' = pushed s @ [v]"
    and q': "popped s' = popped s"
  shows "inv_fifo cfg s'"
proof -
  let ?N = "BUFFER_SIZE cfg" and ?P = "int (length (pushed s))" and ?Q = "int (length (popped s))"
  from inv have len: "length (buffer (buf s)) = nat ?N"
    and w: "write (buf s) = ?P mod ?N" and r: "read (buf s) = ?Q mod ?N"
    and le: "length (popped s) \<le> length (pushed s)" and lt: "?P - ?Q < ?N"
    and pre: "popped s = take (length (popped s)) (pushed s)"
    and slots: "\<And>k. length (popped s) \<le> k \<Longrightarrow> k < length (pushed s) \<Longrightarrow>
          buffer (buf s) ! nat (int k mod ?N) = pushed s ! k"
    by (simp_all add: inv_fifo_def)
  from free full_iff [OF N inv] have "?P - ?Q \<noteq> ?N - 1" by simp
  with lt have lt': "?P + 1 - ?Q < ?N" by linarith
  have "write (buf s') = (if ?N \<le> ?P mod ?N + 1 then 0 else ?P mod ?N + 1)"
    by (simp add: b' w)
  also have "\<dots> = (?P + 1) mod ?N" by (rule wrap_mod [OF N])
  finally have w': "write (buf s') = (?P + 1) mod ?N" .
  have wb: "0 \<le> write (buf s)" "nat (write (buf s)) < length (buffer (buf s))"
    using N w len by simp_all
  have slots': "buffer (buf s') ! nat (int k mod ?N) = pushed s' ! k"
    if "length (popped s') \<le> k" "k < length (pushed s')" for k
  proof (cases "k = length (pushed s)")
    case True
    then show ?thesis using wb by (simp add: b' p' w)
  next
    case False
    with that have k: "length (popped s) \<le> k" "k < length (pushed s)" by (simp_all add: p' q')
    have "int k mod ?N \<noteq> ?P mod ?N"
    proof
      assume "int k mod ?N = ?P mod ?N"
      moreover have "\<bar>int k - ?P\<bar> < ?N" using k lt by linarith
      ultimately have "int k = ?P" by (rule mod_eq_close)
      with k show False by simp
    qed
    moreover have "0 \<le> int k mod ?N" "0 \<le> ?P mod ?N" using N by simp_all
    ultimately have "nat (int k mod ?N) \<noteq> nat (write (buf s))" by (simp add: w)
    then show ?thesis using slots [OF k] k by (simp add: b' p' nth_append)
  qed
  show ?thesis
    unfolding inv_fifo_def
  proof (intro conjI allI impI)
    show "length (buffer (buf s')) = nat ?N" by (simp add: b' len)
    show "read (buf s') = int (length (popped s')) mod ?N" by (simp add: b' q' r)
    show "write (buf s') = int (length (pushed s')) mod ?N" using w' by (simp add: p' add.commute)
    show "length (popped s') \<le> length (pushed s')" using le by (simp add: p' q')
    show "int (length (pushed s')) - int (length (popped s')) < ?N" using lt' by (simp add: p' q')
    show "popped s' = take (length (popped s')) (pushed s')" using pre le by (simp add: p' q')
  next
    fix k assume "length (popped s') \<le> k \<and> k < length (pushed s')"
    then show "buffer (buf s') ! nat (int k mod ?N) = pushed s' ! k" using slots' by blast
  qed
qed

lemma inv_fifo_Get:
  assumes N: "0 < BUFFER_SIZE cfg" and inv: "inv_fifo cfg s" and ne: "\<not> is_empty (buf s)"
    and b': "buf s' = snd (Get_update cfg (buf s))" and p': "pushed s' = pushed s"
    and q': "popped s' = popped s @ [fst (Get_update cfg (buf s))]"
  shows "inv_fifo cfg s'"
proof -
  let ?N = "BUFFER_SIZE cfg" and ?P = "int (length (pushed s))" and ?Q = "int (length (popped s))"
  from inv have len: "length (buffer (buf s)) = nat ?N"
    and w: "write (buf s) = ?P mod ?N" and r: "read (buf s) = ?Q mod ?N"
    and le: "length (popped s) \<le> length (pushed s)" and lt: "?P - ?Q < ?N"
    and pre: "popped s = take (length (popped s)) (pushed s)"
    and slots: "\<And>k. length (popped s) \<le> k \<Longrightarrow> k < length (pushed s) \<Longrightarrow>
          buffer (buf s) ! nat (int k mod ?N) = pushed s ! k"
    by (simp_all add: inv_fifo_def)
  from ne empty_iff [OF inv] le have lt0: "length (popped s) < length (pushed s)" by simp
  have "read (buf s') = (if ?N \<le> ?Q mod ?N + 1 then 0 else ?Q mod ?N + 1)"
    by (simp add: b' r)
  also have "\<dots> = (?Q + 1) mod ?N" by (rule wrap_mod [OF N])
  finally have r': "read (buf s') = (?Q + 1) mod ?N" .
  have val: "buffer (buf s) ! nat (read (buf s)) = pushed s ! length (popped s)"
    using slots [OF order_refl lt0] by (simp add: r)
  have "take (Suc (length (popped s))) (pushed s) = popped s @ [pushed s ! length (popped s)]"
    using pre lt0 by (simp add: take_Suc_conv_app_nth)
  then have pre': "popped s' = take (length (popped s')) (pushed s')"
    by (simp add: q' p' val)
  show ?thesis
    unfolding inv_fifo_def
  proof (intro conjI allI impI)
    show "length (buffer (buf s')) = nat ?N" by (simp add: b' len)
    show "read (buf s') = int (length (popped s')) mod ?N" using r' by (simp add: q' add.commute)
    show "write (buf s') = int (length (pushed s')) mod ?N" by (simp add: b' p' w)
    show "length (popped s') \<le> length (pushed s')" using lt0 by (simp add: p' q')
    show "int (length (pushed s')) - int (length (popped s')) < ?N" using lt by (simp add: p' q')
    show "popped s' = take (length (popped s')) (pushed s')" by (rule pre')
  next
    fix k assume "length (popped s') \<le> k \<and> k < length (pushed s')"
    then have "length (popped s) \<le> k" "k < length (pushed s)" by (simp_all add: p' q')
    then show "buffer (buf s') ! nat (int k mod ?N) = pushed s' ! k"
      using slots by (simp add: b' p')
  qed
qed

subsection \<open>The invariants hold in every run\<close>

lemma inv_fifo_step:
  assumes N: "0 < BUFFER_SIZE cfg" and "inv_life s" "inv_wait cfg s" "inv_prod cfg s"
    "inv_cons cfg s" "inv_fifo cfg s" "step cfg a s = Next s'"
  shows "inv_fifo cfg s'"
  using assms(7)
proof (cases rule: step_NextE)
  case main
  then show ?thesis
  proof (cases rule: main_NextE)
    case init
    with assms(2,4,5) have "pushed s = []" "popped s = []"
      by (simp_all add: inv_life_def inv_prod_def inv_cons_def)
    with init assms(6) show ?thesis by (simp add: inv_fifo_def init_def)
  qed (use assms(6) in \<open>simp_all add: inv_fifo_def\<close>)
next
  case Consumer
  then show ?thesis
  proof (cases rule: Consumer_NextE)
    case Update
    with assms(3) have "\<not> is_empty (buf s)" by (simp add: inv_wait_def)
    with N assms(6) show ?thesis by (rule inv_fifo_Get) (simp_all add: Update)
  qed (use assms(6) in \<open>simp_all add: inv_fifo_def\<close>)
next
  case Producer
  then show ?thesis
  proof (cases rule: Producer_NextE)
    case (Update site)
    with assms(3) have "\<not> is_full cfg (buf s)" by (simp add: inv_wait_def)
    with N assms(6) show ?thesis by (rule inv_fifo_Store) (simp_all add: Update)
  qed (use assms(6) in \<open>simp_all add: inv_fifo_def\<close>)
next
  case (Spurious t)
  then show ?thesis using assms(6)
    by (cases rule: wake_spuriously_NextE) (simp_all add: inv_fifo_def)
qed

lemma inv_initial: "well_configured cfg \<Longrightarrow> inv cfg (initial cfg)"
  by (simp add: inv_def initial_def inv_life_def inv_key_def inv_wait_def inv_notFull_def
      inv_notEmpty_def inv_prod_def inv_cons_def inv_fifo_def well_configured_def)

lemma inv_step:
  assumes "well_configured cfg" "inv cfg s" "step cfg a s = Next s'"
  shows "inv cfg s'"
proof -
  from assms(1) have N: "0 < BUFFER_SIZE cfg" by (simp add: well_configured_def)
  from assms(2) have i: "inv_life s" "inv_key s" "inv_wait cfg s" "inv_notFull cfg s"
    "inv_notEmpty s" "inv_prod cfg s" "inv_cons cfg s" "inv_fifo cfg s"
    by (simp_all add: inv_def)
  note st = assms(3)
  show ?thesis
    unfolding inv_def
    using inv_life_step [OF i(1) st] inv_key_step [OF assms(1) i(1,2) st]
      inv_wait_step [OF i(1,2,3) st] inv_notFull_step [OF assms(1) i(1,2,3,4) st]
      inv_notEmpty_step [OF assms(1) i(1,2,3,5) st] inv_prod_step [OF i(1,6) st]
      inv_cons_step [OF i(1,7) st] inv_fifo_step [OF N i(1,3,6,7,8) st]
    by blast
qed

lemma inv_exec:
  assumes "well_configured cfg"
  shows "inv cfg s \<Longrightarrow> exec cfg sched s = Next s' \<Longrightarrow> inv cfg s'"
proof (induction sched arbitrary: s)
  case Nil
  then show ?case by simp
next
  case (Cons a sched)
  from Cons.prems(2) obtain s1 where "step cfg a s = Next s1" "exec cfg sched s1 = Next s'"
    by (auto split: outcome.splits)
  with Cons.IH Cons.prems(1) inv_step [OF assms] show ?case by blast
qed

subsection \<open>No undefined behaviour and no deadlock\<close>

lemma inv_fifo_bounds:
  assumes "0 < BUFFER_SIZE cfg" "inv_fifo cfg s"
  shows "0 \<le> read (buf s)" "read (buf s) < BUFFER_SIZE cfg"
    "0 \<le> write (buf s)" "write (buf s) < BUFFER_SIZE cfg"
    "in_bounds (read (buf s)) (buffer (buf s))" "in_bounds (write (buf s)) (buffer (buf s))"
  using assms by (simp_all add: inv_fifo_def in_bounds_def)

lemma prod_alive:
  assumes "inv_life s" "prod_pc s \<noteq> P_unborn" "prod_pc s \<noteq> P_return"
  shows "main_pc s = M_join_a \<or> main_pc s = M_join_b"
  using assms by (cases "main_pc s") (auto simp: inv_life_def)

lemma cons_alive:
  assumes "inv_life s" "cons_pc s \<noteq> C_unborn" "cons_pc s \<noteq> C_return"
  shows "main_pc s = M_create_b \<or> main_pc s = M_join_a"
  using assms by (cases "main_pc s") (auto simp: inv_life_def)

lemma alive_sync:
  assumes "inv cfg s" "main_pc s = M_create_b \<or> main_pc s = M_join_a \<or> main_pc s = M_join_b"
  shows "key (buf s) =
      (if in_Store holds_key (prod_pc s) then Locked th_b
       else if in_Get holds_key (cons_pc s) then Locked th_a else Unlocked)"
    and "notFull (buf s) = Waiters [] \<or> notFull (buf s) = Waiters [th_b]"
    and "notEmpty (buf s) = Waiters [] \<or> notEmpty (buf s) = Waiters [th_a]"
  using assms by (auto simp: inv_def inv_key_def inv_notFull_def inv_notEmpty_def)

lemma Producer_no_fault:
  assumes "well_configured cfg" "inv cfg s"
  shows "Producer cfg s \<noteq> Fault"
proof (cases "prod_pc s")
  case (P_Store site pc)
  with assms(2) have m: "main_pc s = M_create_b \<or> main_pc s = M_join_a \<or> main_pc s = M_join_b"
    using prod_alive [of s] by (auto simp: inv_def)
  from assms have N: "0 < BUFFER_SIZE cfg" and f: "inv_fifo cfg s"
    by (simp_all add: well_configured_def inv_def)
  note k = alive_sync [OF assms(2) m] and b = inv_fifo_bounds [OF N f]
  show ?thesis
    using P_Store k b N
    by (cases pc) (auto simp: Producer_def Store_call_def pthread_mutex_unlock_def)
qed (simp_all add: Producer_def)

lemma Consumer_no_fault:
  assumes "well_configured cfg" "inv cfg s"
  shows "Consumer cfg s \<noteq> Fault"
proof (cases "cons_pc s")
  case (C_Get pc)
  with assms(2) have m: "main_pc s = M_create_b \<or> main_pc s = M_join_a \<or> main_pc s = M_join_b"
    using cons_alive [of s] by (auto simp: inv_def)
  from assms have N: "0 < BUFFER_SIZE cfg" and f: "inv_fifo cfg s"
    by (simp_all add: well_configured_def inv_def)
  note k = alive_sync [OF assms(2) m] and b = inv_fifo_bounds [OF N f]
  from assms(2) have "\<not> (in_Store holds_key (prod_pc s) \<and> in_Get holds_key (cons_pc s))"
    by (simp add: inv_def inv_key_def)
  then show ?thesis
    using C_Get k b N
    by (cases pc) (auto simp: Consumer_def Get_call_def pthread_mutex_unlock_def)
qed (simp_all add: Consumer_def)

lemma main_no_fault:
  assumes "well_configured cfg" "inv cfg s"
  shows "main cfg s \<noteq> Fault"
  using assms
  by (cases "main_pc s")
     (auto simp: main_def inv_def inv_life_def inv_key_def inv_notFull_def inv_notEmpty_def)

lemma wake_spuriously_no_fault: "wake_spuriously t s \<noteq> Fault"
proof -
  have "spurious t c \<noteq> Fault" for c by (cases c) simp_all
  then show ?thesis
    by (cases "spurious t (notFull (buf s))"; cases "spurious t (notEmpty (buf s))")
       (simp_all add: wake_spuriously_def)
qed

lemma step_no_fault:
  assumes "well_configured cfg" "inv cfg s"
  shows "step cfg a s \<noteq> Fault"
proof (cases a)
  case (Run t)
  then show ?thesis
    using Producer_no_fault [OF assms] Consumer_no_fault [OF assms] main_no_fault [OF assms]
    by (cases t) simp_all
next
  case (Spurious t)
  then show ?thesis using wake_spuriously_no_fault by simp
qed

lemma Producer_Disabled:
  assumes "well_configured cfg" "inv cfg s" "Producer cfg s = Disabled"
  shows "prod_pc s = P_unborn \<or> prod_pc s = P_return \<or>
    (\<exists>site. prod_pc s = P_Store site Lock \<and> in_Get holds_key (cons_pc s)) \<or>
    (\<exists>site. prod_pc s = P_Store site Wake \<and>
       (notFull (buf s) = Waiters [th_b] \<or> in_Get holds_key (cons_pc s)))"
proof (cases "prod_pc s")
  case (P_Store site pc)
  with assms(2) have m: "main_pc s = M_create_b \<or> main_pc s = M_join_a \<or> main_pc s = M_join_b"
    using prod_alive [of s] by (auto simp: inv_def)
  from assms have N: "0 < BUFFER_SIZE cfg" and f: "inv_fifo cfg s"
    by (simp_all add: well_configured_def inv_def)
  note k = alive_sync [OF assms(2) m] and b = inv_fifo_bounds [OF N f]
  show ?thesis
    using P_Store k b N assms(3)
    by (cases pc)
       (auto simp: Producer_def Store_call_def pthread_mutex_unlock_def split: if_splits)
qed (use assms(3) in \<open>simp_all add: Producer_def\<close>)

lemma Consumer_Disabled:
  assumes "well_configured cfg" "inv cfg s" "Consumer cfg s = Disabled"
  shows "cons_pc s = C_unborn \<or> cons_pc s = C_return \<or>
    (cons_pc s = C_Get Lock \<and> in_Store holds_key (prod_pc s)) \<or>
    (cons_pc s = C_Get Wake \<and>
       (notEmpty (buf s) = Waiters [th_a] \<or> in_Store holds_key (prod_pc s)))"
proof (cases "cons_pc s")
  case (C_Get pc)
  with assms(2) have m: "main_pc s = M_create_b \<or> main_pc s = M_join_a \<or> main_pc s = M_join_b"
    using cons_alive [of s] by (auto simp: inv_def)
  from assms have N: "0 < BUFFER_SIZE cfg" and f: "inv_fifo cfg s"
    by (simp_all add: well_configured_def inv_def)
  note k = alive_sync [OF assms(2) m] and b = inv_fifo_bounds [OF N f]
  from assms(2) have "\<not> (in_Store holds_key (prod_pc s) \<and> in_Get holds_key (cons_pc s))"
    by (simp add: inv_def inv_key_def)
  then show ?thesis
    using C_Get k b N assms(3)
    by (cases pc)
       (auto simp: Consumer_def Get_call_def pthread_mutex_unlock_def split: if_splits)
qed (use assms(3) in \<open>simp_all add: Consumer_def\<close>)

lemma main_Disabled:
  assumes "inv cfg s" "main cfg s = Disabled"
  shows "main_pc s = M_join_a \<and> cons_pc s \<noteq> C_return \<or>
    main_pc s = M_join_b \<and> prod_pc s \<noteq> P_return \<or> main_pc s = M_return"
  using assms
  by (cases "main_pc s")
     (auto simp: main_def inv_def inv_life_def inv_key_def inv_notFull_def inv_notEmpty_def
        split: if_splits)

lemma full_not_empty:
  assumes "2 \<le> BUFFER_SIZE cfg" "inv_fifo cfg s" "is_full cfg (buf s)"
  shows "length (popped s) < length (pushed s)"
proof -
  from assms have "int (length (pushed s)) - int (length (popped s)) = BUFFER_SIZE cfg - 1"
    using full_iff [of cfg s] by simp
  with assms(1) show ?thesis by linarith
qed

lemma pushed_values:
  assumes "inv_prod cfg s" "in_Store (\<lambda>pc. \<not> updated pc) (prod_pc s)" "v \<in> set (pushed s)"
  shows "0 \<le> v \<and> v < COUNT cfg"
proof -
  from assms(2) obtain site pc where pc: "prod_pc s = P_Store site pc" "\<not> updated pc"
    by (cases "prod_pc s") auto
  with assms(1,3) show ?thesis by (cases site) (auto simp: inv_prod_def)
qed

lemma progress:
  assumes wc: "well_configured cfg" and nc: "no_collision cfg" and inv: "inv cfg s"
    and nf: "\<not> final s"
  shows "\<exists>t. enabled cfg (Run t) s"
proof (rule ccontr)
  assume "\<not> ?thesis"
  then have ne: "\<not> enabled cfg (Run t) s" for t by blast
  have dis: "main cfg s = Disabled" "Consumer cfg s = Disabled" "Producer cfg s = Disabled"
    using ne [of main_thread] main_no_fault [OF wc inv]
      ne [of th_a] Consumer_no_fault [OF wc inv]
      ne [of th_b] Producer_no_fault [OF wc inv]
    by (simp_all add: enabled_def split: outcome.splits)
  from wc have N: "2 \<le> BUFFER_SIZE cfg" by (simp add: well_configured_def)
  from inv have i: "inv_life s" "inv_key s" "inv_wait cfg s" "inv_notFull cfg s"
    "inv_notEmpty s" "inv_prod cfg s" "inv_cons cfg s" "inv_fifo cfg s"
    by (simp_all add: inv_def)
  from i(2) have mutex: "\<not> (in_Store holds_key (prod_pc s) \<and> in_Get holds_key (cons_pc s))"
    by (simp add: inv_key_def)
  note P = Producer_Disabled [OF wc inv dis(3)] and C = Consumer_Disabled [OF wc inv dis(2)]
    and M = main_Disabled [OF inv dis(1)]
  from P have ph: "\<not> in_Store holds_key (prod_pc s)" by auto
  from C have ch: "\<not> in_Get holds_key (cons_pc s)" by auto
  from P ph ch have P': "prod_pc s = P_unborn \<or> prod_pc s = P_return \<or>
    (\<exists>site. prod_pc s = P_Store site Wake) \<and> notFull (buf s) = Waiters [th_b]"
    by auto
  from C ph ch have C': "cons_pc s = C_unborn \<or> cons_pc s = C_return \<or>
    cons_pc s = C_Get Wake \<and> notEmpty (buf s) = Waiters [th_a]"
    by auto
  from M nf consider "main_pc s = M_join_a" "cons_pc s \<noteq> C_return"
    | "main_pc s = M_join_b" "prod_pc s \<noteq> P_return"
    by (auto simp: final_def)
  then show False
  proof cases
    case 1
    with i(1) C' have c: "cons_pc s = C_Get Wake" "notEmpty (buf s) = Waiters [th_a]"
      by (auto simp: inv_life_def)
    with i(5) 1 P' have e: "is_empty (buf s)" by (auto simp: inv_notEmpty_def)
    then have len: "length (pushed s) = length (popped s)" using empty_iff [OF i(8)] by simp
    from 1 i(1) P' consider "prod_pc s = P_return"
      | site where "prod_pc s = P_Store site Wake" "notFull (buf s) = Waiters [th_b]"
      by (auto simp: inv_life_def)
    then show False
    proof cases
      case 1
      with i(6) have "LIMIT cfg \<in> set (pushed s)" by (simp add: inv_prod_def)
      moreover from i(8) len have "popped s = pushed s" by (simp add: inv_fifo_def)
      ultimately show False using i(7) c by (simp add: inv_cons_def)
    next
      case 2
      with i(4) \<open>main_pc s = M_join_a\<close> c have "is_full cfg (buf s)"
        by (auto simp: inv_notFull_def)
      from full_not_empty [OF N i(8) this] len show False by simp
    qed
  next
    case 2
    with i(1) have c: "cons_pc s = C_return" by (simp add: inv_life_def)
    from 2 i(1) P' obtain site where p: "prod_pc s = P_Store site Wake"
      "notFull (buf s) = Waiters [th_b]"
      by (auto simp: inv_life_def)
    with i(4) 2 c have "is_full cfg (buf s)" by (auto simp: inv_notFull_def)
    from full_not_empty [OF N i(8) this] have lt: "length (popped s) < length (pushed s)" .
    from i(7) c have "LIMIT cfg \<in> set (popped s)" by (simp add: inv_cons_def)
    moreover from i(8) have "popped s = take (length (popped s)) (pushed s)"
      by (simp add: inv_fifo_def)
    ultimately have "LIMIT cfg \<in> set (pushed s)" by (metis in_set_takeD)
    with pushed_values [OF i(6)] p have "0 \<le> LIMIT cfg \<and> LIMIT cfg < COUNT cfg" by simp
    with nc show False by (simp add: no_collision_def)
  qed
qed

subsection \<open>Every run is finite\<close>

lemma pushed_length:
  assumes "inv_prod cfg s"
  shows "length (pushed s) \<le> nat (COUNT cfg) + 1"
proof (cases "prod_pc s")
  case (P_Store site pc)
  with assms show ?thesis by (cases site) (auto simp: inv_prod_def)
qed (use assms in \<open>auto simp: inv_prod_def\<close>)

lemma cs_rank_le: "cs_rank pc q \<le> cs_rank pc False" "cs_rank pc False \<le> cs_rank pc q + 3"
  by (cases pc; simp)+

lemma prod_rank_dequeue: "prod_rank cfg p i False \<le> prod_rank cfg p i q + 3"
  using cs_rank_le(2) [of _ q]
  by (cases "(cfg, p, i, q)" rule: prod_rank.cases) (simp_all del: cs_rank.simps add: add.commute)

lemma cons_rank_dequeue: "cons_rank cfg c k False \<le> cons_rank cfg c k q + 3"
  using cs_rank_le(2) [of _ q]
  by (cases "(cfg, c, k, q)" rule: cons_rank.cases) (simp_all del: cs_rank.simps add: add.commute)

lemma work_main:
  assumes "inv cfg s" "main cfg s = Next s'"
  shows "work cfg s' < work cfg s"
  using assms(2,1)
  by (cases rule: main_NextE) (auto simp: work_def init_def pthread_cond_init_def inv_def inv_life_def)

lemma prod_rank_any: "prod_rank cfg p i q' \<le> prod_rank cfg p i q + 3"
proof -
  have "prod_rank cfg p i q' \<le> prod_rank cfg p i False"
    using cs_rank_le(1) [of _ q']
    by (cases "(cfg, p, i, q')" rule: prod_rank.cases) (simp_all del: cs_rank.simps)
  with prod_rank_dequeue [of cfg p i q] show ?thesis by linarith
qed

lemma cons_rank_any: "cons_rank cfg c k q' \<le> cons_rank cfg c k q + 3"
proof -
  have "cons_rank cfg c k q' \<le> cons_rank cfg c k False"
    using cs_rank_le(1) [of _ q']
    by (cases "(cfg, c, k, q')" rule: cons_rank.cases) (simp_all del: cs_rank.simps)
  with cons_rank_dequeue [of cfg c k q] show ?thesis by linarith
qed

lemma work_Producer:
  assumes "inv cfg s" "Producer cfg s = Next s'"
  shows "work cfg s' < work cfg s"
  using assms(2)
proof (cases rule: Producer_NextE)
  case sleep
  with assms(1) have "n s < COUNT cfg" by (simp add: inv_def inv_prod_def)
  then have "nat (COUNT cfg - (n s + 1)) + 1 = nat (COUNT cfg - n s)" by linarith
  then have "11 * nat (COUNT cfg - (n s + 1)) + 11 = 11 * nat (COUNT cfg - n s)" by linarith
  with sleep show ?thesis by (simp add: work_def)
next
  case (Signal site ws)
  have "cons_rank cfg (cons_pc s) (length (popped s)) (queued th_a (Waiters (tl ws)))
      \<le> cons_rank cfg (cons_pc s) (length (popped s)) (queued th_a (Waiters ws)) + 3"
    by (rule cons_rank_any)
  with Signal show ?thesis by (cases site) (simp_all add: work_def)
next
  case exit
  then have "nat (COUNT cfg - n s) = 0" by simp
  with exit show ?thesis by (simp add: work_def)
next
  case init
  then show ?thesis by (simp add: work_def)
next
  case loop
  then show ?thesis by (simp add: work_def)
next
  case printf
  then show ?thesis by (simp add: work_def)
next
  case (Lock site)
  then show ?thesis by (cases site) (simp_all add: work_def)
next
  case (Full site)
  then show ?thesis by (cases site) (simp_all add: work_def)
next
  case (Free site)
  then show ?thesis by (cases site) (simp_all add: work_def)
next
  case (Wait site ws)
  then show ?thesis by (cases site) (simp_all add: work_def)
next
  case (Wake site ws)
  then show ?thesis by (cases site) (simp_all add: work_def)
next
  case (Update site)
  then show ?thesis by (cases site) (simp_all add: work_def)
next
  case (Unlock site)
  then show ?thesis by (cases site) (simp_all add: work_def)
qed

lemma work_Consumer:
  assumes "well_configured cfg" "inv cfg s" "Consumer cfg s = Next s'"
  shows "work cfg s' < work cfg s"
  using assms(3)
proof (cases rule: Consumer_NextE)
  case Update
  from assms(2) have f: "inv_fifo cfg s" and w: "inv_wait cfg s" and p: "inv_prod cfg s"
    by (simp_all add: inv_def)
  from w Update have "\<not> is_empty (buf s)" by (simp add: inv_wait_def)
  with empty_iff [OF f] f have "length (popped s) < length (pushed s)"
    by (simp add: inv_fifo_def)
  with pushed_length [OF p] have "length (popped s) < nat (COUNT cfg) + 1" by linarith
  then have "11 * (nat (COUNT cfg) + 1 - Suc (length (popped s))) + 11
      = 11 * (nat (COUNT cfg) + 1 - length (popped s))" by linarith
  with Update show ?thesis by (simp add: work_def)
next
  case (Signal ws)
  have "prod_rank cfg (prod_pc s) (n s) (queued th_b (Waiters (tl ws)))
      \<le> prod_rank cfg (prod_pc s) (n s) (queued th_b (Waiters ws)) + 3"
    by (rule prod_rank_any)
  with Signal show ?thesis by (simp add: work_def)
qed (simp_all add: work_def)

lemma work_spurious:
  assumes "wake_spuriously t s = Next s'"
  shows "work cfg s' \<le> work cfg s + 3"
  using assms
proof (cases rule: wake_spuriously_NextE)
  case (notFull ws)
  have "prod_rank cfg (prod_pc s) (n s) (queued th_b (Waiters (removeAll t ws)))
      \<le> prod_rank cfg (prod_pc s) (n s) (queued th_b (Waiters ws)) + 3"
    by (rule prod_rank_any)
  with notFull show ?thesis by (simp add: work_def)
next
  case (notEmpty ws)
  have "cons_rank cfg (cons_pc s) (length (popped s)) (queued th_a (Waiters (removeAll t ws)))
      \<le> cons_rank cfg (cons_pc s) (length (popped s)) (queued th_a (Waiters ws)) + 3"
    by (rule cons_rank_any)
  with notEmpty show ?thesis by (simp add: work_def)
qed

lemma work_step:
  assumes "well_configured cfg" "inv cfg s" "step cfg a s = Next s'"
  shows "work cfg s' + thread_steps [a] \<le> work cfg s + 3 * spurious_wakeups [a]"
proof (cases a)
  case (Run t)
  with assms(3) work_main [OF assms(2)] work_Consumer [OF assms(1,2)] work_Producer [OF assms(2)]
  have "work cfg s' < work cfg s" by (cases t) simp_all
  with Run show ?thesis by simp
next
  case (Spurious t)
  with assms(3) work_spurious show ?thesis by simp
qed

lemma thread_steps_append [simp]: "thread_steps (xs @ ys) = thread_steps xs + thread_steps ys"
  by (induction xs rule: thread_steps.induct) simp_all

lemma spurious_wakeups_append [simp]:
  "spurious_wakeups (xs @ ys) = spurious_wakeups xs + spurious_wakeups ys"
  by (induction xs rule: spurious_wakeups.induct) simp_all

lemma work_exec:
  assumes "well_configured cfg"
  shows "inv cfg s \<Longrightarrow> exec cfg sched s = Next s' \<Longrightarrow>
    work cfg s' + thread_steps sched \<le> work cfg s + 3 * spurious_wakeups sched"
proof (induction sched arbitrary: s)
  case Nil
  then show ?case by simp
next
  case (Cons a sched)
  from Cons.prems(2) obtain s1 where s1: "step cfg a s = Next s1" "exec cfg sched s1 = Next s'"
    by (auto split: outcome.splits)
  from inv_step [OF assms Cons.prems(1) s1(1)] have "inv cfg s1" .
  from Cons.IH [OF this s1(2)] work_step [OF assms Cons.prems(1) s1(1)]
  have "work cfg s' + (thread_steps [a] + thread_steps sched)
      \<le> work cfg s + 3 * (spurious_wakeups [a] + spurious_wakeups sched)"
    unfolding distrib_left by linarith
  then show ?case
    using thread_steps_append [of "[a]" sched] spurious_wakeups_append [of "[a]" sched]
    by simp
qed

lemma work_initial: "work cfg (initial cfg) = bound cfg"
  by (simp add: work_def initial_def bound_def)

lemma can_finish:
  assumes wc: "well_configured cfg" and nc: "no_collision cfg"
  shows "inv cfg s \<Longrightarrow>
    \<exists>sched s'. exec cfg sched s = Next s' \<and> final s' \<and> spurious_wakeups sched = 0"
proof (induction "work cfg s" arbitrary: s rule: less_induct)
  case less
  show ?case
  proof (cases "final s")
    case True
    then have "exec cfg [] s = Next s \<and> final s \<and> spurious_wakeups [] = 0" by simp
    then show ?thesis by blast
  next
    case False
    from progress [OF wc nc less.prems False] obtain t where "enabled cfg (Run t) s" by blast
    then obtain s1 where s1: "step cfg (Run t) s = Next s1"
      by (cases "step cfg (Run t) s") (simp_all add: enabled_def)
    from work_step [OF wc less.prems s1] have "work cfg s1 < work cfg s" by simp
    moreover from inv_step [OF wc less.prems s1] have "inv cfg s1" .
    ultimately obtain sched s' where
      "exec cfg sched s1 = Next s'" "final s'" "spurious_wakeups sched = 0"
      using less.hyps by blast
    with s1 have "exec cfg (Run t # sched) s = Next s' \<and> final s' \<and>
      spurious_wakeups (Run t # sched) = 0" by simp
    then show ?thesis by blast
  qed
qed

subsection \<open>Every call completes\<close>

text \<open>
  A step of any thread while the producer is inside \<^verbatim>\<open>Store\<close> either is the producer's
  unlock, which ends the call, or leaves the producer inside the same call; the value the
  call has to store is stored by the update and by no other step.
\<close>

lemma Store_step_within:
  assumes i: "inv cfg s" and st: "step cfg a s = Next s1" and pc: "prod_pc s = P_Store site pc"
  shows "(pc = Unlock \<and> a = Run th_b \<and>
          prod_pc s1 = (case site of In_loop \<Rightarrow> P_sleep | After_loop \<Rightarrow> P_return) \<and>
          pushed s1 = pushed s) \<or>
         (\<exists>pc1. prod_pc s1 = P_Store site pc1 \<and>
            (if updated pc1 then pushed s1 else pushed s1 @ [Store_arg cfg site s1]) =
            (if updated pc then pushed s else pushed s @ [Store_arg cfg site s]))"
proof (cases a)
  case (Spurious t)
  with st have "wake_spuriously t s = Next s1" by simp
  then have "prod_pc s1 = prod_pc s \<and> pushed s1 = pushed s \<and> n s1 = n s"
    by (cases rule: wake_spuriously_NextE) simp_all
  with pc show ?thesis by (auto simp add: Store_arg_def split: call_site.splits)
next
  case (Run t)
  show ?thesis
  proof (cases t)
    case main_thread
    with Run st have "main cfg s = Next s1" by simp
    moreover from i pc have "main_pc s \<noteq> M_create_b" by (auto simp add: inv_def inv_life_def)
    ultimately have "prod_pc s1 = prod_pc s \<and> pushed s1 = pushed s \<and> n s1 = n s"
      by (cases rule: main_NextE) simp_all
    with pc show ?thesis by (auto simp add: Store_arg_def split: call_site.splits)
  next
    case th_a
    with Run st have "Consumer cfg s = Next s1" by simp
    then have "prod_pc s1 = prod_pc s \<and> pushed s1 = pushed s \<and> n s1 = n s"
      by (cases rule: Consumer_NextE) simp_all
    with pc show ?thesis by (auto simp add: Store_arg_def split: call_site.splits)
  next
    case th_b
    with Run st have "Producer cfg s = Next s1" by simp
    then show ?thesis using pc Run th_b
      by (cases rule: Producer_NextE) (auto simp add: Store_arg_def split: call_site.splits)
  qed
qed

lemma Store_completes:
  assumes wc: "well_configured cfg" and nc: "no_collision cfg"
  shows "inv cfg s \<Longrightarrow> prod_pc s = P_Store site pc \<Longrightarrow>
    \<exists>sched' s'. exec cfg sched' s = Next s' \<and> spurious_wakeups sched' = 0 \<and>
      prod_pc s' = (case site of In_loop \<Rightarrow> P_sleep | After_loop \<Rightarrow> P_return) \<and>
      pushed s' = (if updated pc then pushed s else pushed s @ [Store_arg cfg site s])"
proof (induction "work cfg s" arbitrary: s pc rule: less_induct)
  case less
  from less.prems have "\<not> final s" by (auto simp add: inv_def inv_life_def final_def)
  from progress [OF wc nc less.prems(1) this] obtain t where "enabled cfg (Run t) s" by blast
  then obtain s1 where s1: "step cfg (Run t) s = Next s1"
    by (cases "step cfg (Run t) s") (simp_all add: enabled_def)
  from work_step [OF wc less.prems(1) s1] have w: "work cfg s1 < work cfg s" by simp
  from inv_step [OF wc less.prems(1) s1] have i1: "inv cfg s1" .
  from Store_step_within [OF less.prems(1) s1 less.prems(2)]
  consider (ended) "pc = Unlock"
      "prod_pc s1 = (case site of In_loop \<Rightarrow> P_sleep | After_loop \<Rightarrow> P_return)"
      "pushed s1 = pushed s"
    | (inside) pc1 where "prod_pc s1 = P_Store site pc1"
      "(if updated pc1 then pushed s1 else pushed s1 @ [Store_arg cfg site s1]) =
       (if updated pc then pushed s else pushed s @ [Store_arg cfg site s])"
    by blast
  then show ?case
  proof cases
    case ended
    with s1 have "exec cfg [Run t] s = Next s1 \<and> spurious_wakeups [Run t] = 0 \<and>
      prod_pc s1 = (case site of In_loop \<Rightarrow> P_sleep | After_loop \<Rightarrow> P_return) \<and>
      pushed s1 = (if updated pc then pushed s else pushed s @ [Store_arg cfg site s])"
      by simp
    then show ?thesis by blast
  next
    case inside
    from less.hyps [OF w i1 inside(1)] obtain sched' s' where
      "exec cfg sched' s1 = Next s'" "spurious_wakeups sched' = 0"
      "prod_pc s' = (case site of In_loop \<Rightarrow> P_sleep | After_loop \<Rightarrow> P_return)"
      "pushed s' = (if updated pc1 then pushed s1 else pushed s1 @ [Store_arg cfg site s1])"
      by blast
    with s1 inside(2) have "exec cfg (Run t # sched') s = Next s' \<and>
      spurious_wakeups (Run t # sched') = 0 \<and>
      prod_pc s' = (case site of In_loop \<Rightarrow> P_sleep | After_loop \<Rightarrow> P_return) \<and>
      pushed s' = (if updated pc then pushed s else pushed s @ [Store_arg cfg site s])"
      by simp
    then show ?thesis by blast
  qed
qed

text \<open>
  The same for the consumer inside \<^verbatim>\<open>Get\<close>: the call ends with the consumer's unlock,
  which hands the value read to the caller.
\<close>

lemma Get_step_within:
  assumes i: "inv cfg s" and st: "step cfg a s = Next s1" and pc: "cons_pc s = C_Get pc"
  shows "(pc = Unlock \<and> a = Run th_a \<and> cons_pc s1 = C_if \<and>
          returned s1 = returned s @ [d s1] \<and> d s1 = data s) \<or>
         (\<exists>pc1. cons_pc s1 = C_Get pc1 \<and> returned s1 = returned s)"
proof (cases a)
  case (Spurious t)
  with st have "wake_spuriously t s = Next s1" by simp
  then have "cons_pc s1 = cons_pc s \<and> returned s1 = returned s"
    by (cases rule: wake_spuriously_NextE) simp_all
  with pc show ?thesis by simp
next
  case (Run t)
  show ?thesis
  proof (cases t)
    case main_thread
    with Run st have "main cfg s = Next s1" by simp
    moreover from i pc have "main_pc s \<noteq> M_create_a" by (auto simp add: inv_def inv_life_def)
    ultimately have "cons_pc s1 = cons_pc s \<and> returned s1 = returned s"
      by (cases rule: main_NextE) simp_all
    with pc show ?thesis by simp
  next
    case th_b
    with Run st have "Producer cfg s = Next s1" by simp
    then have "cons_pc s1 = cons_pc s \<and> returned s1 = returned s"
      by (cases rule: Producer_NextE) simp_all
    with pc show ?thesis by simp
  next
    case th_a
    with Run st have "Consumer cfg s = Next s1" by simp
    then show ?thesis using pc Run th_a
      by (cases rule: Consumer_NextE) simp_all
  qed
qed

lemma Get_returns:
  assumes wc: "well_configured cfg" and nc: "no_collision cfg"
  shows "inv cfg s \<Longrightarrow> cons_pc s = C_Get pc \<Longrightarrow>
    \<exists>sched' s'. exec cfg sched' s = Next s' \<and> spurious_wakeups sched' = 0 \<and>
      cons_pc s' = C_if \<and> returned s' = returned s @ [d s']"
proof (induction "work cfg s" arbitrary: s pc rule: less_induct)
  case less
  from less.prems have "\<not> final s" by (auto simp add: inv_def inv_life_def final_def)
  from progress [OF wc nc less.prems(1) this] obtain t where "enabled cfg (Run t) s" by blast
  then obtain s1 where s1: "step cfg (Run t) s = Next s1"
    by (cases "step cfg (Run t) s") (simp_all add: enabled_def)
  from work_step [OF wc less.prems(1) s1] have w: "work cfg s1 < work cfg s" by simp
  from inv_step [OF wc less.prems(1) s1] have i1: "inv cfg s1" .
  from Get_step_within [OF less.prems(1) s1 less.prems(2)]
  consider (ended) "cons_pc s1 = C_if" "returned s1 = returned s @ [d s1]"
    | (inside) pc1 where "cons_pc s1 = C_Get pc1" "returned s1 = returned s"
    by blast
  then show ?case
  proof cases
    case ended
    with s1 have "exec cfg [Run t] s = Next s1 \<and> spurious_wakeups [Run t] = 0 \<and>
      cons_pc s1 = C_if \<and> returned s1 = returned s @ [d s1]"
      by simp
    then show ?thesis by blast
  next
    case inside
    from less.hyps [OF w i1 inside(1)] obtain sched' s' where
      "exec cfg sched' s1 = Next s'" "spurious_wakeups sched' = 0"
      "cons_pc s' = C_if" "returned s' = returned s1 @ [d s']"
      by blast
    with s1 inside(2) have "exec cfg (Run t # sched') s = Next s' \<and>
      spurious_wakeups (Run t # sched') = 0 \<and>
      cons_pc s' = C_if \<and> returned s' = returned s @ [d s']"
      by simp
    then show ?thesis by blast
  qed
qed

text \<open>The value a call of \<^verbatim>\<open>Get\<close> returns is the oldest value stored and not yet returned.\<close>

lemma returned_nth:
  assumes "inv cfg s" "k < length (returned s)"
  shows "returned s ! k = pushed s ! k"
proof -
  from assms(1) have c: "inv_cons cfg s" and f: "inv_fifo cfg s" by (simp_all add: inv_def)
  from c have "prefix (returned s) (popped s)"
    by (cases "cons_pc s") (auto simp add: inv_cons_def split: if_splits)
  moreover from f have "prefix (popped s) (pushed s)"
    unfolding inv_fifo_def by (metis take_is_prefix)
  ultimately have "prefix (returned s) (pushed s)" by (rule prefix_order.trans)
  then obtain zs where "pushed s = returned s @ zs" by (auto simp add: prefix_def)
  with assms(2) show ?thesis by (simp add: nth_append)
qed

lemma Get_completes:
  assumes wc: "well_configured cfg" and nc: "no_collision cfg"
    and i: "inv cfg s" and pc: "cons_pc s = C_Get pc"
  shows "\<exists>sched' s'. exec cfg sched' s = Next s' \<and> spurious_wakeups sched' = 0 \<and>
      cons_pc s' = C_if \<and> returned s' = returned s @ [d s'] \<and>
      length (returned s) < length (pushed s') \<and> d s' = pushed s' ! length (returned s)"
proof -
  from Get_returns [OF wc nc i pc] obtain sched' s' where
    e: "exec cfg sched' s = Next s'" "spurious_wakeups sched' = 0"
      "cons_pc s' = C_if" "returned s' = returned s @ [d s']"
    by blast
  from inv_exec [OF wc i e(1)] have i': "inv cfg s'" .
  from e(4) have k: "length (returned s) < length (returned s')" by simp
  from returned_nth [OF i' k] e(4) have v: "d s' = pushed s' ! length (returned s)" by simp
  from i' have c: "inv_cons cfg s'" and f: "inv_fifo cfg s'" by (simp_all add: inv_def)
  from c e(3) have "returned s' = popped s'" by (simp add: inv_cons_def)
  with f have "length (returned s') \<le> length (pushed s')" by (simp add: inv_fifo_def)
  with k have "length (returned s) < length (pushed s')" by simp
  with e v show ?thesis by blast
qed

subsection \<open>The claims\<close>

lemma source_config_ok: "well_configured source_config" "no_collision source_config"
  by (simp_all add: well_configured_def no_collision_def source_config_def)

lemma exec_blocking: "exec source_config blocking_schedule (initial source_config) = Next blocked_state"
  by code_simp

lemma exec_full: "exec source_config full_schedule (initial source_config) = Next end_state"
  by code_simp

lemma run_inv:
  assumes "well_configured cfg" "exec cfg sched (initial cfg) = Next s"
  shows "inv cfg s"
  using inv_exec [OF assms(1) inv_initial [OF assms(1)] assms(2)] .

lemma held_bounds:
  assumes "0 < BUFFER_SIZE cfg" "inv_fifo cfg s"
  shows "0 \<le> held s" "held s < BUFFER_SIZE cfg"
    "held s = (write (buf s) - read (buf s)) mod BUFFER_SIZE cfg"
proof -
  from assms(2) show le: "0 \<le> held s" and lt: "held s < BUFFER_SIZE cfg"
    by (simp_all add: inv_fifo_def held_def)
  from assms(2) have "(write (buf s) - read (buf s)) mod BUFFER_SIZE cfg
      = held s mod BUFFER_SIZE cfg"
    by (simp add: inv_fifo_def held_def mod_diff_eq)
  with le lt show "held s = (write (buf s) - read (buf s)) mod BUFFER_SIZE cfg" by simp
qed

lemma full_mod:
  assumes "0 < BUFFER_SIZE cfg" "inv_fifo cfg s"
  shows "is_full cfg (buf s) \<longleftrightarrow> (write (buf s) + 1) mod BUFFER_SIZE cfg = read (buf s)"
proof -
  from inv_fifo_bounds(3) [OF assms] have "0 \<le> write (buf s) + 1" by simp
  from c_rem_nonneg [OF this assms(1)] show ?thesis by (simp add: is_full_def)
qed

text \<open>
  C2. In every state a run can reach, with \<open>held\<close> the number of values stored by
  \<^verbatim>\<open>Store\<close> and not yet read by \<^verbatim>\<open>Get\<close>: the test of \<^verbatim>\<open>Get\<close>
  (\<^verbatim>\<open>write == read\<close>) holds exactly when nothing is held, the test of \<^verbatim>\<open>Store\<close>
  (\<^verbatim>\<open>(write + 1) % BUFFER_SIZE == read\<close>, which is \<open>(write + 1) mod N = read\<close>) holds
  exactly when \<open>N - 1\<close> values are held, the number held is \<open>(write - read) mod N\<close> and
  lies in \<open>[0, N - 1]\<close>, and both indices lie in \<open>[0, N)\<close>. The state is arbitrary, so
  every step of \<^verbatim>\<open>Store\<close> and \<^verbatim>\<open>Get\<close> preserves this.
\<close>

theorem buffer_invariant:
  assumes "well_configured cfg" "exec cfg sched (initial cfg) = Next s"
  shows "(is_empty (buf s) \<longleftrightarrow> held s = 0) \<and>
    (is_full cfg (buf s) \<longleftrightarrow> held s = BUFFER_SIZE cfg - 1) \<and>
    (is_full cfg (buf s) \<longleftrightarrow> (write (buf s) + 1) mod BUFFER_SIZE cfg = read (buf s)) \<and>
    held s = (write (buf s) - read (buf s)) mod BUFFER_SIZE cfg \<and>
    0 \<le> held s \<and> held s \<le> BUFFER_SIZE cfg - 1 \<and>
    0 \<le> read (buf s) \<and> read (buf s) < BUFFER_SIZE cfg \<and>
    0 \<le> write (buf s) \<and> write (buf s) < BUFFER_SIZE cfg"
proof -
  from assms(1) have N: "0 < BUFFER_SIZE cfg" by (simp add: well_configured_def)
  from run_inv [OF assms] have f: "inv_fifo cfg s" by (simp add: inv_def)
  have "is_empty (buf s) \<longleftrightarrow> held s = 0"
    using empty_iff [OF f] by (auto simp: held_def)
  moreover have "is_full cfg (buf s) \<longleftrightarrow> held s = BUFFER_SIZE cfg - 1"
    using full_iff [OF N f] by (simp add: held_def)
  moreover note full_mod [OF N f] held_bounds [OF N f] inv_fifo_bounds(1-4) [OF N f]
  ultimately show ?thesis by simp
qed

theorem buffer_invariant_witness:
  "well_configured source_config \<and>
   exec source_config blocking_schedule (initial source_config) = Next blocked_state \<and>
   is_full source_config (buf blocked_state) \<and> \<not> is_empty (buf blocked_state) \<and>
   held blocked_state = 3 \<and> read (buf blocked_state) = 0 \<and> write (buf blocked_state) = 3"
  using buffer_invariant [OF source_config_ok(1) exec_blocking] source_config_ok(1) exec_blocking
  by (simp add: held_def blocked_state_def source_config_def)

lemma returned_prefix:
  assumes "inv_cons cfg s"
  shows "prefix (consumed (stdout s)) (returned s)" "prefix (returned s) (popped s)"
    "length (returned s) \<le> length (consumed (stdout s)) + 1"
proof -
  have "prefix (consumed (stdout s)) (returned s) \<and> prefix (returned s) (popped s) \<and>
    length (returned s) \<le> length (consumed (stdout s)) + 1"
  proof (cases "cons_pc s")
    case (C_Get pc)
    with assms show ?thesis by (cases "updated pc") (simp_all add: inv_cons_def)
  qed (use assms in \<open>simp_all add: inv_cons_def\<close>)
  then show "prefix (consumed (stdout s)) (returned s)" "prefix (returned s) (popped s)"
    "length (returned s) \<le> length (consumed (stdout s)) + 1"
    by simp_all
qed

lemma popped_prefix:
  assumes "inv_fifo cfg s"
  shows "prefix (popped s) (pushed s)"
proof -
  from assms have "popped s = take (length (popped s)) (pushed s)" by (simp add: inv_fifo_def)
  then show ?thesis by (metis take_is_prefix)
qed

lemma pushed_prefix:
  assumes "inv_prod cfg s"
  shows "prefix (pushed s) ([0..COUNT cfg - 1] @ [LIMIT cfg])"
proof -
  have up: "prefix [0..i - 1] [0..COUNT cfg - 1]" if "0 \<le> i" "i \<le> COUNT cfg" for i
  proof (cases "i = 0")
    case True
    then show ?thesis by simp
  next
    case False
    with that have "[0..COUNT cfg - 1] = [0..i - 1] @ [i - 1 + 1..COUNT cfg - 1]"
      by (intro upto_split2) simp_all
    then show ?thesis by (simp add: prefix_def)
  qed
  have up0: "prefix [0..i - 1] [0..COUNT cfg - 1]" if "0 \<le> i" "i \<le> COUNT cfg \<or> i = 0" for i
    using that up [of i] by auto
  have up1: "prefix [0..i] [0..COUNT cfg - 1]" if "0 \<le> i" "i < COUNT cfg" for i
    using up [of "i + 1"] that by simp
  show ?thesis
  proof (cases "prod_pc s")
    case (P_Store site pc)
    with assms up0 up1 show ?thesis
      by (cases site; cases "updated pc") (auto simp: inv_prod_def intro: prefix_prefix)
  qed (use assms up0 up1 in \<open>auto simp: inv_prod_def intro: prefix_prefix\<close>)
qed

lemma items_no_LIMIT:
  assumes "no_collision cfg"
  shows "LIMIT cfg \<notin> set [0..COUNT cfg - 1]"
  using assms by (auto simp: no_collision_def)

lemma prefix_with_last:
  assumes "prefix xs (ys @ [z])" "z \<in> set xs" "z \<notin> set ys"
  shows "xs = ys @ [z]"
proof -
  from assms(1) consider "prefix xs ys" | "xs = ys @ [z]"
    by auto
  then show ?thesis
  proof cases
    case 1
    then have "set xs \<subseteq> set ys" by (rule set_mono_prefix)
    with assms(2,3) show ?thesis by blast
  qed
qed

lemma all_delivered:
  assumes "no_collision cfg" "inv cfg s" "cons_pc s = C_return"
  shows "popped s = [0..COUNT cfg - 1] @ [LIMIT cfg]" "returned s = popped s"
    "consumed (stdout s) = [0..COUNT cfg - 1]"
proof -
  from assms(2) have c: "inv_cons cfg s" and f: "inv_fifo cfg s" and p: "inv_prod cfg s"
    by (simp_all add: inv_def)
  from c assms(3) have q: "popped s = consumed (stdout s) @ [LIMIT cfg]"
    and r: "returned s = popped s"
    by (simp_all add: inv_cons_def)
  from popped_prefix [OF f] pushed_prefix [OF p]
  have "prefix (popped s) ([0..COUNT cfg - 1] @ [LIMIT cfg])" by (rule prefix_order.trans)
  moreover from q have "LIMIT cfg \<in> set (popped s)" by simp
  ultimately show "popped s = [0..COUNT cfg - 1] @ [LIMIT cfg]"
    using items_no_LIMIT [OF assms(1)] by (rule prefix_with_last)
  with q show "consumed (stdout s) = [0..COUNT cfg - 1]" by simp
  from r show "returned s = popped s" .
qed

lemma final_threads:
  assumes "inv cfg s" "final s"
  shows "cons_pc s = C_return" "prod_pc s = P_return"
  using assms by (simp_all add: inv_def inv_life_def final_def)

text \<open>
  From every state of a run the program can be run to its end, and there both threads have
  returned, every value \<open>0, ..., COUNT - 1\<close> and then the sentinel has been stored, read
  and returned, and every value but the sentinel has been printed.
\<close>

lemma can_deliver:
  assumes wc: "well_configured cfg" and nc: "no_collision cfg" and i: "inv cfg s"
  shows "\<exists>sched' s'. exec cfg sched' s = Next s' \<and> spurious_wakeups sched' = 0 \<and> final s' \<and>
    cons_pc s' = C_return \<and> prod_pc s' = P_return \<and>
    pushed s' = [0..COUNT cfg - 1] @ [LIMIT cfg] \<and> popped s' = pushed s' \<and>
    returned s' = pushed s' \<and> consumed (stdout s') = [0..COUNT cfg - 1]"
proof -
  from can_finish [OF wc nc i] obtain sched' s' where
    e: "exec cfg sched' s = Next s'" "spurious_wakeups sched' = 0" and fin: "final s'"
    by blast
  from inv_exec [OF wc i e(1)] have i': "inv cfg s'" .
  from final_threads [OF i' fin] have t: "cons_pc s' = C_return" "prod_pc s' = P_return" .
  from i' have "inv_prod cfg s'" by (simp add: inv_def)
  with t(2) have p: "pushed s' = [0..COUNT cfg - 1] @ [LIMIT cfg]" by (simp add: inv_prod_def)
  from all_delivered [OF nc i' t(1)] p
  have "popped s' = pushed s' \<and> returned s' = pushed s' \<and>
    consumed (stdout s') = [0..COUNT cfg - 1]"
    by simp
  with e fin t p show ?thesis by blast
qed

text \<open>
  C1. In every run, the values returned by the successive calls of \<^verbatim>\<open>Get\<close> are, in
  the same order, an initial segment of the values stored by \<^verbatim>\<open>Store\<close>. Once
  \<^verbatim>\<open>Consumer\<close> has returned they are all of them: \<open>0, ..., COUNT - 1\<close> and then the
  sentinel, so the two sequences are equal, and equal to \<open>0, ..., COUNT - 1\<close> with the
  sentinel left out. The values do come out: until \<^verbatim>\<open>main\<close> has returned some thread
  can take a step, and every run can be continued to a state where \<^verbatim>\<open>Consumer\<close> has
  returned, the values stored so far are the first of the values stored in the end, these
  are \<open>0, ..., COUNT - 1\<close> and the sentinel, and the calls of \<^verbatim>\<open>Get\<close> have returned
  exactly them, in this order.
\<close>

theorem fifo_order:
  assumes "well_configured cfg" "no_collision cfg" "exec cfg sched (initial cfg) = Next s"
  shows "prefix (returned s) (pushed s) \<and>
    (cons_pc s = C_return \<longrightarrow>
       returned s = pushed s \<and>
       removeAll (LIMIT cfg) (returned s) = removeAll (LIMIT cfg) (pushed s) \<and>
       removeAll (LIMIT cfg) (returned s) = [0..COUNT cfg - 1]) \<and>
    (\<not> final s \<longrightarrow> (\<exists>t. enabled cfg (Run t) s)) \<and>
    (\<exists>sched' s'. exec cfg sched' s = Next s' \<and> cons_pc s' = C_return \<and>
       prefix (returned s) (returned s') \<and> prefix (pushed s) (pushed s') \<and>
       pushed s' = [0..COUNT cfg - 1] @ [LIMIT cfg] \<and> returned s' = pushed s')"
proof -
  from run_inv [OF assms(1,3)] have i: "inv cfg s" .
  then have c: "inv_cons cfg s" and f: "inv_fifo cfg s" and p: "inv_prod cfg s"
    by (simp_all add: inv_def)
  from returned_prefix(2) [OF c] popped_prefix [OF f]
  have 1: "prefix (returned s) (pushed s)" by (rule prefix_order.trans)
  have 2: "returned s = pushed s \<and>
       removeAll (LIMIT cfg) (returned s) = removeAll (LIMIT cfg) (pushed s) \<and>
       removeAll (LIMIT cfg) (returned s) = [0..COUNT cfg - 1]" if "cons_pc s = C_return"
  proof -
    from all_delivered(1,2) [OF assms(2) i that]
    have q: "popped s = [0..COUNT cfg - 1] @ [LIMIT cfg]" and r: "returned s = popped s"
      by simp_all
    from q have "LIMIT cfg \<in> set (popped s)" by simp
    with popped_prefix [OF f] have "LIMIT cfg \<in> set (pushed s)"
      using set_mono_prefix by blast
    with pushed_prefix [OF p] items_no_LIMIT [OF assms(2)]
    have "pushed s = [0..COUNT cfg - 1] @ [LIMIT cfg]" by (intro prefix_with_last) simp_all
    moreover have "removeAll (LIMIT cfg) ([0..COUNT cfg - 1] @ [LIMIT cfg]) = [0..COUNT cfg - 1]"
      using items_no_LIMIT [OF assms(2)] by simp
    ultimately show ?thesis using q r by simp
  qed
  have 3: "\<exists>t. enabled cfg (Run t) s" if "\<not> final s"
    using progress [OF assms(1,2) i that] .
  from can_deliver [OF assms(1,2) i] obtain sched' s' where
    e: "exec cfg sched' s = Next s'" "cons_pc s' = C_return"
      "pushed s' = [0..COUNT cfg - 1] @ [LIMIT cfg]" "returned s' = pushed s'"
    by blast
  from pushed_prefix [OF p] e(3) have 4: "prefix (pushed s) (pushed s')" by simp
  with 1 e(4) have 5: "prefix (returned s) (returned s')" by simp
  from e 4 5 have "\<exists>sched' s'. exec cfg sched' s = Next s' \<and> cons_pc s' = C_return \<and>
       prefix (returned s) (returned s') \<and> prefix (pushed s) (pushed s') \<and>
       pushed s' = [0..COUNT cfg - 1] @ [LIMIT cfg] \<and> returned s' = pushed s'"
    by blast
  with 1 2 3 show ?thesis by blast
qed

theorem fifo_order_witness:
  "well_configured source_config \<and> no_collision source_config \<and>
   exec source_config full_schedule (initial source_config) = Next end_state \<and>
   cons_pc end_state = C_return \<and>
   returned end_state = [0, 1, 2, 3, 4, 5, 6, 7, 8, 9, 10, - 1] \<and>
   pushed end_state = [0, 1, 2, 3, 4, 5, 6, 7, 8, 9, 10, - 1] \<and>
   returned end_state = pushed end_state"
  using fifo_order [OF source_config_ok exec_full] source_config_ok exec_full
  by (simp add: end_state_def)

lemma pushed_data:
  assumes "inv_prod cfg s" "prod_pc s \<noteq> P_Store After_loop Signal"
    "prod_pc s \<noteq> P_Store After_loop Unlock" "prod_pc s \<noteq> P_return"
  shows "set (pushed s) \<subseteq> {0..COUNT cfg - 1}"
proof (cases "prod_pc s")
  case (P_Store site pc)
  with assms show ?thesis by (cases site; cases pc) (auto simp: inv_prod_def)
qed (use assms in \<open>auto simp: inv_prod_def\<close>)

lemma sentinel_pushed:
  assumes "no_collision cfg" "inv_prod cfg s" "LIMIT cfg \<in> set (pushed s)"
  shows "pushed s = [0..COUNT cfg - 1] @ [LIMIT cfg]"
    "prod_pc s = P_Store After_loop Signal \<or> prod_pc s = P_Store After_loop Unlock \<or>
     prod_pc s = P_return"
proof -
  from assms(3) pushed_prefix [OF assms(2)] items_no_LIMIT [OF assms(1)]
  show "pushed s = [0..COUNT cfg - 1] @ [LIMIT cfg]"
    by (intro prefix_with_last) simp_all
  show "prod_pc s = P_Store After_loop Signal \<or> prod_pc s = P_Store After_loop Unlock \<or>
     prod_pc s = P_return"
  proof (rule ccontr)
    assume "\<not> ?thesis"
    with pushed_data [OF assms(2)] assms(3) have "LIMIT cfg \<in> {0..COUNT cfg - 1}" by blast
    with assms(1) show False by (simp add: no_collision_def)
  qed
qed

lemma sentinel_popped:
  assumes "inv_cons cfg s" "LIMIT cfg \<in> set (popped s)"
  shows "last (popped s) = LIMIT cfg" "LIMIT cfg \<notin> set (butlast (popped s))"
    "cons_pc s = C_Get Signal \<or> cons_pc s = C_Get Unlock \<or> cons_pc s = C_if \<or>
     cons_pc s = C_return"
proof -
  have "last (popped s) = LIMIT cfg \<and> LIMIT cfg \<notin> set (butlast (popped s)) \<and>
    (cons_pc s = C_Get Signal \<or> cons_pc s = C_Get Unlock \<or> cons_pc s = C_if \<or>
     cons_pc s = C_return)"
  proof (cases "cons_pc s")
    case (C_Get pc)
    with assms show ?thesis by (cases pc) (auto simp: inv_cons_def)
  qed (use assms in \<open>auto simp: inv_cons_def\<close>)
  then show "last (popped s) = LIMIT cfg" "LIMIT cfg \<notin> set (butlast (popped s))"
    "cons_pc s = C_Get Signal \<or> cons_pc s = C_Get Unlock \<or> cons_pc s = C_if \<or>
     cons_pc s = C_return"
    by simp_all
qed

lemma Store_target:
  assumes "inv_prod cfg s" "prod_pc s = P_Store site pc"
  shows "(if updated pc then pushed s else pushed s @ [Store_arg cfg site s]) =
    (case site of In_loop \<Rightarrow> [0..n s] | After_loop \<Rightarrow> [0..COUNT cfg - 1] @ [LIMIT cfg])"
proof (cases site)
  case In_loop
  with assms have n: "0 \<le> n s" and
    ps: "pushed s = (if updated pc then [0..n s] else [0..n s - 1])"
    by (simp_all add: inv_prod_def)
  from n have "[0..n s] = [0..n s - 1] @ [n s]" by (rule upto_rec2)
  with ps In_loop show ?thesis by (simp add: Store_arg_def)
next
  case After_loop
  with assms show ?thesis by (simp add: inv_prod_def Store_arg_def)
qed

text \<open>
  C3. In every run the values stored by the producer are an initial segment of
  \<open>0, 1, ..., COUNT - 1, LIMIT\<close>, and all of it once \<^verbatim>\<open>Producer\<close> has returned, after
  which the producer takes no step. The sentinel is not one of \<open>0, ..., COUNT - 1\<close>, so it
  is stored once, last; once it is stored no step of the producer changes the slots, the
  indices or the values stored. Once the consumer has read the sentinel, it is the last
  value read, it was read once, and no step of the consumer reads another value.

  The producer does store them. Outside \<^verbatim>\<open>Store\<close> it is never blocked: it sets \<open>n\<close> to
  0, tests \<open>n < COUNT\<close>, prints \<open>n\<close> and calls \<^verbatim>\<open>Store (n)\<close> when the test holds and
  calls \<^verbatim>\<open>Store (LIMIT)\<close> when it fails, and increments \<open>n\<close> after a call in the loop.
  A call of \<^verbatim>\<open>Store\<close> in the loop is made with \<open>0, ..., n - 1\<close> stored and can be run to
  its return, with \<open>0, ..., n\<close> stored; the call after the loop is made with
  \<open>0, ..., COUNT - 1\<close> stored and can be run to its return, with the sentinel stored after
  them. Every run can be continued to a state where \<^verbatim>\<open>Producer\<close> has returned, the
  values stored so far are the first of the values stored in the end, these are
  \<open>0, ..., COUNT - 1\<close> and the sentinel, and the consumer has read them all, the sentinel
  last.
\<close>

theorem producer_sequence:
  assumes "well_configured cfg" "no_collision cfg" "exec cfg sched (initial cfg) = Next s"
  shows "prefix (pushed s) ([0..COUNT cfg - 1] @ [LIMIT cfg]) \<and>
    LIMIT cfg \<notin> set [0..COUNT cfg - 1] \<and>
    (prod_pc s = P_return \<longrightarrow>
       pushed s = [0..COUNT cfg - 1] @ [LIMIT cfg] \<and> Producer cfg s = Disabled) \<and>
    (LIMIT cfg \<in> set (pushed s) \<longrightarrow>
       pushed s = [0..COUNT cfg - 1] @ [LIMIT cfg] \<and>
       (\<forall>s'. Producer cfg s = Next s' \<longrightarrow>
          pushed s' = pushed s \<and> buffer (buf s') = buffer (buf s) \<and>
          write (buf s') = write (buf s) \<and> read (buf s') = read (buf s))) \<and>
    (LIMIT cfg \<in> set (popped s) \<longrightarrow>
       last (popped s) = LIMIT cfg \<and> LIMIT cfg \<notin> set (butlast (popped s)) \<and>
       (\<forall>s'. Consumer cfg s = Next s' \<longrightarrow> popped s' = popped s)) \<and>
    (prod_pc s = P_init \<longrightarrow>
       pushed s = [] \<and> Producer cfg s = Next (s\<lparr>n := 0, prod_pc := P_for\<rparr>)) \<and>
    (prod_pc s = P_for \<longrightarrow>
       pushed s = [0..n s - 1] \<and>
       Producer cfg s =
         Next (s\<lparr>prod_pc := if n s < COUNT cfg then P_printf else P_Store After_loop Lock\<rparr>)) \<and>
    (prod_pc s = P_printf \<longrightarrow>
       pushed s = [0..n s - 1] \<and>
       Producer cfg s =
         Next (s\<lparr>stdout := stdout s @ [Produced (n s)], prod_pc := P_Store In_loop Lock\<rparr>)) \<and>
    (prod_pc s = P_sleep \<longrightarrow>
       pushed s = [0..n s] \<and> Producer cfg s = Next (s\<lparr>n := n s + 1, prod_pc := P_for\<rparr>)) \<and>
    (\<forall>pc. prod_pc s = P_Store In_loop pc \<longrightarrow>
       pushed s = (if updated pc then [0..n s] else [0..n s - 1]) \<and>
       (\<exists>sched' s'. exec cfg sched' s = Next s' \<and> prod_pc s' = P_sleep \<and>
          n s' = n s \<and> pushed s' = [0..n s])) \<and>
    (\<forall>pc. prod_pc s = P_Store After_loop pc \<longrightarrow>
       pushed s = (if updated pc then [0..COUNT cfg - 1] @ [LIMIT cfg] else [0..COUNT cfg - 1]) \<and>
       (\<exists>sched' s'. exec cfg sched' s = Next s' \<and> prod_pc s' = P_return \<and>
          pushed s' = [0..COUNT cfg - 1] @ [LIMIT cfg])) \<and>
    (\<exists>sched' s'. exec cfg sched' s = Next s' \<and> prod_pc s' = P_return \<and>
       prefix (pushed s) (pushed s') \<and> pushed s' = [0..COUNT cfg - 1] @ [LIMIT cfg] \<and>
       popped s' = pushed s' \<and> last (popped s') = LIMIT cfg)"
proof -
  from run_inv [OF assms(1,3)] have i: "inv cfg s" .
  then have c: "inv_cons cfg s" and p: "inv_prod cfg s" by (simp_all add: inv_def)
  have 1: "pushed s = [0..COUNT cfg - 1] @ [LIMIT cfg] \<and> Producer cfg s = Disabled"
    if "prod_pc s = P_return"
    using that p by (simp add: inv_prod_def Producer_def)
  have 2: "pushed s = [0..COUNT cfg - 1] @ [LIMIT cfg] \<and>
       (\<forall>s'. Producer cfg s = Next s' \<longrightarrow>
          pushed s' = pushed s \<and> buffer (buf s') = buffer (buf s) \<and>
          write (buf s') = write (buf s) \<and> read (buf s') = read (buf s))"
    if l: "LIMIT cfg \<in> set (pushed s)"
  proof -
    note sp = sentinel_pushed [OF assms(2) p l]
    have "pushed s' = pushed s \<and> buffer (buf s') = buffer (buf s) \<and>
          write (buf s') = write (buf s) \<and> read (buf s') = read (buf s)"
      if "Producer cfg s = Next s'" for s'
      using that sp(2) by (cases rule: Producer_NextE) auto
    with sp(1) show ?thesis by blast
  qed
  have 3: "last (popped s) = LIMIT cfg \<and> LIMIT cfg \<notin> set (butlast (popped s)) \<and>
       (\<forall>s'. Consumer cfg s = Next s' \<longrightarrow> popped s' = popped s)"
    if l: "LIMIT cfg \<in> set (popped s)"
  proof -
    note sp = sentinel_popped [OF c l]
    have "popped s' = popped s" if "Consumer cfg s = Next s'" for s'
      using that sp(3) by (cases rule: Consumer_NextE) auto
    with sp(1,2) show ?thesis by blast
  qed
  have 4: "pushed s = [] \<and> Producer cfg s = Next (s\<lparr>n := 0, prod_pc := P_for\<rparr>)"
    if "prod_pc s = P_init"
    using that p by (simp add: inv_prod_def Producer_def)
  have 5: "pushed s = [0..n s - 1] \<and>
       Producer cfg s =
         Next (s\<lparr>prod_pc := if n s < COUNT cfg then P_printf else P_Store After_loop Lock\<rparr>)"
    if "prod_pc s = P_for"
    using that p by (simp add: inv_prod_def Producer_def)
  have 6: "pushed s = [0..n s - 1] \<and>
       Producer cfg s =
         Next (s\<lparr>stdout := stdout s @ [Produced (n s)], prod_pc := P_Store In_loop Lock\<rparr>)"
    if "prod_pc s = P_printf"
    using that p by (simp add: inv_prod_def Producer_def)
  have 7: "pushed s = [0..n s] \<and> Producer cfg s = Next (s\<lparr>n := n s + 1, prod_pc := P_for\<rparr>)"
    if "prod_pc s = P_sleep"
    using that p by (simp add: inv_prod_def Producer_def)
  have 8: "pushed s = (if updated pc then [0..n s] else [0..n s - 1]) \<and>
       (\<exists>sched' s'. exec cfg sched' s = Next s' \<and> prod_pc s' = P_sleep \<and>
          n s' = n s \<and> pushed s' = [0..n s])"
    if pc: "prod_pc s = P_Store In_loop pc" for pc
  proof -
    from Store_completes [OF assms(1,2) i pc] Store_target [OF p pc]
    obtain sched' s' where e: "exec cfg sched' s = Next s'" "prod_pc s' = P_sleep"
      "pushed s' = [0..n s]"
      by auto
    from inv_exec [OF assms(1) i e(1)] have "inv_prod cfg s'" by (simp add: inv_def)
    with e(2) have "0 \<le> n s'" "pushed s' = [0..n s']" by (simp_all add: inv_prod_def)
    moreover from p pc have "0 \<le> n s" by (simp add: inv_prod_def)
    ultimately have "length [0..n s'] = length [0..n s]" "0 \<le> n s'" "0 \<le> n s"
      using e(3) by simp_all
    then have "n s' = n s" by simp
    with e p pc show ?thesis by (auto simp add: inv_prod_def)
  qed
  have 9: "pushed s =
       (if updated pc then [0..COUNT cfg - 1] @ [LIMIT cfg] else [0..COUNT cfg - 1]) \<and>
       (\<exists>sched' s'. exec cfg sched' s = Next s' \<and> prod_pc s' = P_return \<and>
          pushed s' = [0..COUNT cfg - 1] @ [LIMIT cfg])"
    if pc: "prod_pc s = P_Store After_loop pc" for pc
  proof -
    from Store_completes [OF assms(1,2) i pc] Store_target [OF p pc]
    obtain sched' s' where "exec cfg sched' s = Next s'" "prod_pc s' = P_return"
      "pushed s' = [0..COUNT cfg - 1] @ [LIMIT cfg]"
      by auto
    with p pc show ?thesis by (auto simp add: inv_prod_def)
  qed
  from can_deliver [OF assms(1,2) i] obtain sched' s' where
    e: "exec cfg sched' s = Next s'" "prod_pc s' = P_return"
      "pushed s' = [0..COUNT cfg - 1] @ [LIMIT cfg]" "popped s' = pushed s'"
    by blast
  from pushed_prefix [OF p] e(3) have "prefix (pushed s) (pushed s')" by simp
  moreover from e(3,4) have "last (popped s') = LIMIT cfg" by simp
  ultimately have 10: "\<exists>sched' s'. exec cfg sched' s = Next s' \<and> prod_pc s' = P_return \<and>
       prefix (pushed s) (pushed s') \<and> pushed s' = [0..COUNT cfg - 1] @ [LIMIT cfg] \<and>
       popped s' = pushed s' \<and> last (popped s') = LIMIT cfg"
    using e by blast
  from pushed_prefix [OF p] items_no_LIMIT [OF assms(2)] 1 2 3 4 5 6 7 8 9 10
  show ?thesis by blast
qed

theorem producer_sequence_witness:
  "well_configured source_config \<and> no_collision source_config \<and>
   exec source_config full_schedule (initial source_config) = Next end_state \<and>
   prod_pc end_state = P_return \<and>
   pushed end_state = [0, 1, 2, 3, 4, 5, 6, 7, 8, 9, 10, - 1] \<and>
   Producer source_config end_state = Disabled \<and>
   last (popped end_state) = - 1"
  using producer_sequence [OF source_config_ok exec_full] source_config_ok exec_full
  by (simp add: end_state_def source_config_def)

lemma write_advance:
  assumes "0 < BUFFER_SIZE cfg" "inv_fifo cfg s"
  shows "write (Store_update cfg v (buf s)) = (write (buf s) + 1) mod BUFFER_SIZE cfg"
    "buffer (Store_update cfg v (buf s)) ! nat (write (buf s)) = v"
proof -
  note b = inv_fifo_bounds [OF assms]
  from assms(2) have w: "write (buf s) = int (length (pushed s)) mod BUFFER_SIZE cfg"
    by (simp add: inv_fifo_def)
  have "write (Store_update cfg v (buf s)) =
      (if BUFFER_SIZE cfg \<le> int (length (pushed s)) mod BUFFER_SIZE cfg + 1 then 0
       else int (length (pushed s)) mod BUFFER_SIZE cfg + 1)"
    by (simp add: w)
  also have "\<dots> = (int (length (pushed s)) + 1) mod BUFFER_SIZE cfg"
    by (rule wrap_mod [OF assms(1)])
  also have "\<dots> = (write (buf s) + 1) mod BUFFER_SIZE cfg"
    by (simp add: w mod_add_left_eq)
  finally show "write (Store_update cfg v (buf s)) = (write (buf s) + 1) mod BUFFER_SIZE cfg" .
  from b(6) show "buffer (Store_update cfg v (buf s)) ! nat (write (buf s)) = v"
    by (simp add: in_bounds_def)
qed

lemma read_advance:
  assumes "0 < BUFFER_SIZE cfg" "inv_fifo cfg s"
  shows "read (snd (Get_update cfg (buf s))) = (read (buf s) + 1) mod BUFFER_SIZE cfg"
proof -
  from assms(2) have r: "read (buf s) = int (length (popped s)) mod BUFFER_SIZE cfg"
    by (simp add: inv_fifo_def)
  have "read (snd (Get_update cfg (buf s))) =
      (if BUFFER_SIZE cfg \<le> int (length (popped s)) mod BUFFER_SIZE cfg + 1 then 0
       else int (length (popped s)) mod BUFFER_SIZE cfg + 1)"
    by (simp add: r)
  also have "\<dots> = (int (length (popped s)) + 1) mod BUFFER_SIZE cfg"
    by (rule wrap_mod [OF assms(1)])
  also have "\<dots> = (read (buf s) + 1) mod BUFFER_SIZE cfg"
    by (simp add: r mod_add_left_eq)
  finally show ?thesis .
qed

lemma oldest_value:
  assumes "inv_fifo cfg s" "\<not> is_empty (buf s)"
  shows "buffer (buf s) ! nat (read (buf s)) = pushed s ! length (popped s)"
    "length (popped s) < length (pushed s)"
proof -
  from assms empty_iff [OF assms(1)] show lt: "length (popped s) < length (pushed s)"
    by (simp add: inv_fifo_def)
  with assms(1) show "buffer (buf s) ! nat (read (buf s)) = pushed s ! length (popped s)"
    by (simp add: inv_fifo_def)
qed

lemma exec_writing: "exec source_config writing_schedule (initial source_config) = Next writing_state"
  by code_simp

lemma exec_reading: "exec source_config reading_schedule (initial source_config) = Next reading_state"
  by code_simp

lemma exec_starving:
  "exec source_config starving_schedule (initial source_config) = Next starved_state"
  by code_simp

lemma Store_sync:
  assumes "inv cfg s" "prod_pc s = P_Store site pc"
  shows "key (buf s) =
      (if holds_key pc then Locked th_b
       else if in_Get holds_key (cons_pc s) then Locked th_a else Unlocked)"
    and "notFull (buf s) = Waiters [] \<or> pc = Wake \<and> notFull (buf s) = Waiters [th_b]"
    and "notEmpty (buf s) = Waiters [] \<or> notEmpty (buf s) = Waiters [th_a]"
proof -
  from assms have m: "main_pc s = M_create_b \<or> main_pc s = M_join_a \<or> main_pc s = M_join_b"
    using prod_alive [of s] by (auto simp: inv_def)
  from alive_sync [OF assms(1) m] assms(2)
  show "key (buf s) =
      (if holds_key pc then Locked th_b
       else if in_Get holds_key (cons_pc s) then Locked th_a else Unlocked)"
    and "notEmpty (buf s) = Waiters [] \<or> notEmpty (buf s) = Waiters [th_a]"
    by simp_all
  from assms m show "notFull (buf s) = Waiters [] \<or> pc = Wake \<and> notFull (buf s) = Waiters [th_b]"
    by (auto simp: inv_def inv_notFull_def)
qed

lemma Get_sync:
  assumes "inv cfg s" "cons_pc s = C_Get pc"
  shows "key (buf s) =
      (if in_Store holds_key (prod_pc s) then Locked th_b
       else if holds_key pc then Locked th_a else Unlocked)"
    and "notEmpty (buf s) = Waiters [] \<or> pc = Wake \<and> notEmpty (buf s) = Waiters [th_a]"
    and "notFull (buf s) = Waiters [] \<or> notFull (buf s) = Waiters [th_b]"
    and "holds_key pc \<Longrightarrow> \<not> in_Store holds_key (prod_pc s)"
proof -
  from assms have m: "main_pc s = M_create_b \<or> main_pc s = M_join_a \<or> main_pc s = M_join_b"
    using cons_alive [of s] by (auto simp: inv_def)
  from alive_sync [OF assms(1) m] assms(2)
  show "key (buf s) =
      (if in_Store holds_key (prod_pc s) then Locked th_b
       else if holds_key pc then Locked th_a else Unlocked)"
    and "notFull (buf s) = Waiters [] \<or> notFull (buf s) = Waiters [th_b]"
    by simp_all
  from assms m show "notEmpty (buf s) = Waiters [] \<or> pc = Wake \<and> notEmpty (buf s) = Waiters [th_a]"
    by (auto simp: inv_def inv_notEmpty_def)
  from assms show "holds_key pc \<Longrightarrow> \<not> in_Store holds_key (prod_pc s)"
    by (auto simp: inv_def inv_key_def)
qed

text \<open>
  C5. In every run, when the producer is inside \<^verbatim>\<open>Store\<close>: at the lock it takes the key
  and goes on to the \<^verbatim>\<open>while\<close> test when the key is free, and cannot take a step while
  the consumer holds it; at the \<^verbatim>\<open>while\<close> test
  it goes on to the update when the buffer is not full and to \<^verbatim>\<open>pthread_cond_wait\<close>
  when it is full, changing nothing; the update is only ever reached with the buffer not
  full, writes the argument into the slot at \<^verbatim>\<open>write\<close> and advances \<^verbatim>\<open>write\<close> by one
  modulo \<^verbatim>\<open>BUFFER_SIZE\<close>; the wait is only ever entered with the buffer full, releases
  the key, queues the producer on \<^verbatim>\<open>notFull\<close> and changes neither the slots nor the
  indices; while the producer is queued it cannot take a step, and the buffer is full or
  the consumer has just freed a slot and is about to signal; once off the queue it takes
  the key again and repeats the test; after the update it signals \<^verbatim>\<open>notEmpty\<close>, which
  leaves no thread queued there, then releases the key and returns to its caller. When
  the sentinel is not one of \<open>0, ..., COUNT - 1\<close>, the call can be run from where it is
  to its return, and it returns with its argument stored once, after the values stored
  before.
\<close>

theorem Store_writes_or_waits:
  assumes "well_configured cfg" "exec cfg sched (initial cfg) = Next s"
    "prod_pc s = P_Store site pc"
  shows "(pc = While \<longrightarrow>
       Producer cfg s =
         Next (s\<lparr>prod_pc := P_Store site (if is_full cfg (buf s) then Wait else Update)\<rparr>)) \<and>
    (pc = Update \<longrightarrow>
       \<not> is_full cfg (buf s) \<and>
       Producer cfg s =
         Next (s\<lparr>buf := Store_update cfg (Store_arg cfg site s) (buf s),
                 prod_pc := P_Store site Signal,
                 pushed := pushed s @ [Store_arg cfg site s]\<rparr>) \<and>
       buffer (Store_update cfg (Store_arg cfg site s) (buf s)) =
         (buffer (buf s))[nat (write (buf s)) := Store_arg cfg site s] \<and>
       buffer (Store_update cfg (Store_arg cfg site s) (buf s)) ! nat (write (buf s)) =
         Store_arg cfg site s \<and>
       write (Store_update cfg (Store_arg cfg site s) (buf s)) =
         (write (buf s) + 1) mod BUFFER_SIZE cfg) \<and>
    (pc = Wait \<longrightarrow>
       is_full cfg (buf s) \<and>
       Producer cfg s =
         Next (s\<lparr>buf := (buf s)\<lparr>notFull := Waiters [th_b], key := Unlocked\<rparr>,
                 prod_pc := P_Store site Wake\<rparr>)) \<and>
    (pc = Wake \<longrightarrow>
       (if queued th_b (notFull (buf s))
        then Producer cfg s = Disabled \<and> (is_full cfg (buf s) \<or> cons_pc s = C_Get Signal)
        else if key (buf s) = Unlocked
        then Producer cfg s =
          Next (s\<lparr>buf := (buf s)\<lparr>key := Locked th_b\<rparr>, prod_pc := P_Store site While\<rparr>)
        else Producer cfg s = Disabled)) \<and>
    (pc = Lock \<longrightarrow>
       (if key (buf s) = Unlocked
        then Producer cfg s =
          Next (s\<lparr>buf := (buf s)\<lparr>key := Locked th_b\<rparr>, prod_pc := P_Store site While\<rparr>)
        else Producer cfg s = Disabled \<and> key (buf s) = Locked th_a \<and>
          in_Get holds_key (cons_pc s))) \<and>
    (pc = Signal \<longrightarrow>
       Producer cfg s =
         Next (s\<lparr>buf := (buf s)\<lparr>notEmpty := Waiters []\<rparr>, prod_pc := P_Store site Unlock\<rparr>)) \<and>
    (pc = Unlock \<longrightarrow>
       Producer cfg s =
         Next (s\<lparr>buf := (buf s)\<lparr>key := Unlocked\<rparr>,
                 prod_pc := (case site of In_loop \<Rightarrow> P_sleep | After_loop \<Rightarrow> P_return)\<rparr>)) \<and>
    (no_collision cfg \<longrightarrow>
       (\<exists>sched' s'. exec cfg sched' s = Next s' \<and>
          prod_pc s' = (case site of In_loop \<Rightarrow> P_sleep | After_loop \<Rightarrow> P_return) \<and>
          pushed s' = (if updated pc then pushed s else pushed s @ [Store_arg cfg site s])))"
proof -
  from assms(1) have N: "0 < BUFFER_SIZE cfg" by (simp add: well_configured_def)
  from run_inv [OF assms(1,2)] have i: "inv cfg s" .
  then have f: "inv_fifo cfg s" and w: "inv_wait cfg s" and nf: "inv_notFull cfg s"
    by (simp_all add: inv_def)
  note k = Store_sync [OF i assms(3)] and b = inv_fifo_bounds [OF N f]
  have 1: "Producer cfg s =
         Next (s\<lparr>prod_pc := P_Store site (if is_full cfg (buf s) then Wait else Update)\<rparr>)"
    if "pc = While"
    using that assms(3) N by (simp add: Producer_def Store_call_def Store_next_def)
  have 2: "\<not> is_full cfg (buf s) \<and>
       Producer cfg s =
         Next (s\<lparr>buf := Store_update cfg (Store_arg cfg site s) (buf s),
                 prod_pc := P_Store site Signal,
                 pushed := pushed s @ [Store_arg cfg site s]\<rparr>)"
    if "pc = Update"
    using that assms(3) w b(6) by (simp add: Producer_def Store_call_def Store_next_def inv_wait_def)
  have 3: "is_full cfg (buf s) \<and>
       Producer cfg s =
         Next (s\<lparr>buf := (buf s)\<lparr>notFull := Waiters [th_b], key := Unlocked\<rparr>,
                 prod_pc := P_Store site Wake\<rparr>)"
    if "pc = Wait"
    using that assms(3) w k(1,2)
    by (simp add: Producer_def Store_call_def Store_next_def inv_wait_def)
  have 4: "if queued th_b (notFull (buf s))
        then Producer cfg s = Disabled \<and> (is_full cfg (buf s) \<or> cons_pc s = C_Get Signal)
        else if key (buf s) = Unlocked
        then Producer cfg s =
          Next (s\<lparr>buf := (buf s)\<lparr>key := Locked th_b\<rparr>, prod_pc := P_Store site While\<rparr>)
        else Producer cfg s = Disabled"
    if "pc = Wake"
  proof -
    from i assms(3) have m: "main_pc s = M_join_a \<or> main_pc s = M_join_b"
      using prod_alive [of s] by (auto simp: inv_def)
    from k(2) show ?thesis
    proof
      assume e: "notFull (buf s) = Waiters []"
      with that assms(3) k(1) show ?thesis
        by (simp add: Producer_def Store_call_def Store_next_def)
    next
      assume q: "pc = Wake \<and> notFull (buf s) = Waiters [th_b]"
      with nf m have "is_full cfg (buf s) \<or> cons_pc s = C_Get Signal"
        by (auto simp: inv_notFull_def)
      with q assms(3) show ?thesis by (simp add: Producer_def Store_call_def)
    qed
  qed
  have 5: "if key (buf s) = Unlocked
        then Producer cfg s =
          Next (s\<lparr>buf := (buf s)\<lparr>key := Locked th_b\<rparr>, prod_pc := P_Store site While\<rparr>)
        else Producer cfg s = Disabled \<and> key (buf s) = Locked th_a \<and>
          in_Get holds_key (cons_pc s)"
    if "pc = Lock"
    using that assms(3) k(1)
    by (cases "in_Get holds_key (cons_pc s)")
      (simp_all add: Producer_def Store_call_def Store_next_def)
  have 6: "Producer cfg s =
         Next (s\<lparr>buf := (buf s)\<lparr>notEmpty := Waiters []\<rparr>, prod_pc := P_Store site Unlock\<rparr>)"
    if "pc = Signal"
    using that assms(3) k(3)
    by (auto simp add: Producer_def Store_call_def Store_next_def)
  have 7: "Producer cfg s =
         Next (s\<lparr>buf := (buf s)\<lparr>key := Unlocked\<rparr>,
                 prod_pc := (case site of In_loop \<Rightarrow> P_sleep | After_loop \<Rightarrow> P_return)\<rparr>)"
    if "pc = Unlock"
    using that assms(3) k(1)
    by (simp add: Producer_def Store_call_def Store_next_def pthread_mutex_unlock_def)
  have 8: "\<exists>sched' s'. exec cfg sched' s = Next s' \<and>
          prod_pc s' = (case site of In_loop \<Rightarrow> P_sleep | After_loop \<Rightarrow> P_return) \<and>
          pushed s' = (if updated pc then pushed s else pushed s @ [Store_arg cfg site s])"
    if "no_collision cfg"
    using Store_completes [OF assms(1) that i assms(3)] by blast
  have a: "pc = Update \<longrightarrow>
       \<not> is_full cfg (buf s) \<and>
       Producer cfg s =
         Next (s\<lparr>buf := Store_update cfg (Store_arg cfg site s) (buf s),
                 prod_pc := P_Store site Signal,
                 pushed := pushed s @ [Store_arg cfg site s]\<rparr>) \<and>
       buffer (Store_update cfg (Store_arg cfg site s) (buf s)) =
         (buffer (buf s))[nat (write (buf s)) := Store_arg cfg site s] \<and>
       buffer (Store_update cfg (Store_arg cfg site s) (buf s)) ! nat (write (buf s)) =
         Store_arg cfg site s \<and>
       write (Store_update cfg (Store_arg cfg site s) (buf s)) =
         (write (buf s) + 1) mod BUFFER_SIZE cfg"
    using 2 write_advance [OF N f, of "Store_arg cfg site s"] by simp
  from 1 a 3 4 5 6 7 8 show ?thesis by blast
qed

theorem Store_writes_or_waits_witness:
  "well_configured source_config \<and> no_collision source_config \<and>
   exec source_config writing_schedule (initial source_config) = Next writing_state \<and>
   prod_pc writing_state = P_Store In_loop Update \<and>
   \<not> is_full source_config (buf writing_state) \<and>
   Producer source_config writing_state =
     Next (writing_state
       \<lparr>buf := (buf writing_state)\<lparr>buffer := [0, 1, 0, 0], write := 2\<rparr>,
        prod_pc := P_Store In_loop Signal, pushed := [0, 1]\<rparr>) \<and>
   exec source_config blocking_schedule (initial source_config) = Next blocked_state \<and>
   prod_pc blocked_state = P_Store In_loop Wake \<and>
   Producer source_config blocked_state = Disabled \<and>
   is_full source_config (buf blocked_state) \<and>
   (\<exists>sched' s'. exec source_config sched' blocked_state = Next s' \<and> prod_pc s' = P_sleep \<and>
      pushed s' = [0, 1, 2, 3])"
proof -
  note w = Store_writes_or_waits [OF source_config_ok(1) exec_writing, of In_loop Update]
  note b = Store_writes_or_waits [OF source_config_ok(1) exec_blocking, of In_loop Wake]
  have "cons_pc blocked_state \<noteq> C_Get Signal" by (simp add: blocked_state_def)
  with w b source_config_ok exec_writing exec_blocking show ?thesis
    by (simp add: writing_state_def blocked_state_def Store_update_def Store_arg_def
        source_config_def)
qed

text \<open>
  C6. In every run, when the consumer is inside \<^verbatim>\<open>Get\<close>: at the lock it takes the key
  and goes on to the \<^verbatim>\<open>while\<close> test when the key is free, and cannot take a step while
  the producer holds it; at the \<^verbatim>\<open>while\<close> test it
  goes on to the update when the buffer is not empty and to \<^verbatim>\<open>pthread_cond_wait\<close> when
  it is empty, changing nothing; the update is only ever reached with the buffer not
  empty, reads the slot at \<^verbatim>\<open>read\<close> (the oldest value stored and not yet read),
  advances \<^verbatim>\<open>read\<close> by one modulo \<^verbatim>\<open>BUFFER_SIZE\<close> and leaves the slots and
  \<^verbatim>\<open>write\<close> as they are; after the update it signals \<^verbatim>\<open>notFull\<close>, which leaves no
  thread queued there, then releases the key and returns; the value read is the value
  returned; the wait is only ever
  entered with the buffer empty, releases the key, queues the consumer on \<^verbatim>\<open>notEmpty\<close>
  and changes neither the slots nor the indices; while the consumer is queued it cannot
  take a step, and the buffer is empty or the producer has just stored a value and is
  about to signal; once off the queue it takes the key again and repeats the test. When
  the sentinel is not one of \<open>0, ..., COUNT - 1\<close>, the call can be run from where it is
  to its return, and it returns one value: the oldest value stored and not yet returned.
\<close>

theorem Get_reads_or_waits:
  assumes "well_configured cfg" "exec cfg sched (initial cfg) = Next s" "cons_pc s = C_Get pc"
  shows "(pc = While \<longrightarrow>
       Consumer cfg s =
         Next (s\<lparr>cons_pc := C_Get (if is_empty (buf s) then Wait else Update)\<rparr>)) \<and>
    (pc = Update \<longrightarrow>
       \<not> is_empty (buf s) \<and>
       Consumer cfg s =
         Next (s\<lparr>buf := snd (Get_update cfg (buf s)), cons_pc := C_Get Signal,
                 data := buffer (buf s) ! nat (read (buf s)),
                 popped := popped s @ [buffer (buf s) ! nat (read (buf s))]\<rparr>) \<and>
       buffer (buf s) ! nat (read (buf s)) = pushed s ! length (popped s) \<and>
       read (snd (Get_update cfg (buf s))) = (read (buf s) + 1) mod BUFFER_SIZE cfg \<and>
       buffer (snd (Get_update cfg (buf s))) = buffer (buf s) \<and>
       write (snd (Get_update cfg (buf s))) = write (buf s)) \<and>
    (pc = Unlock \<longrightarrow>
       data s = last (popped s) \<and>
       Consumer cfg s =
         Next (s\<lparr>buf := (buf s)\<lparr>key := Unlocked\<rparr>, cons_pc := C_if, d := data s,
                 returned := returned s @ [data s]\<rparr>)) \<and>
    (pc = Wait \<longrightarrow>
       is_empty (buf s) \<and>
       Consumer cfg s =
         Next (s\<lparr>buf := (buf s)\<lparr>notEmpty := Waiters [th_a], key := Unlocked\<rparr>,
                 cons_pc := C_Get Wake\<rparr>)) \<and>
    (pc = Wake \<longrightarrow>
       (if queued th_a (notEmpty (buf s))
        then Consumer cfg s = Disabled \<and>
          (is_empty (buf s) \<or> in_Store (\<lambda>pc. pc = Signal) (prod_pc s))
        else if key (buf s) = Unlocked
        then Consumer cfg s =
          Next (s\<lparr>buf := (buf s)\<lparr>key := Locked th_a\<rparr>, cons_pc := C_Get While\<rparr>)
        else Consumer cfg s = Disabled)) \<and>
    (pc = Lock \<longrightarrow>
       (if key (buf s) = Unlocked
        then Consumer cfg s =
          Next (s\<lparr>buf := (buf s)\<lparr>key := Locked th_a\<rparr>, cons_pc := C_Get While\<rparr>)
        else Consumer cfg s = Disabled \<and> key (buf s) = Locked th_b \<and>
          in_Store holds_key (prod_pc s))) \<and>
    (pc = Signal \<longrightarrow>
       data s = last (popped s) \<and>
       Consumer cfg s =
         Next (s\<lparr>buf := (buf s)\<lparr>notFull := Waiters []\<rparr>, cons_pc := C_Get Unlock\<rparr>)) \<and>
    (no_collision cfg \<longrightarrow>
       (\<exists>sched' s'. exec cfg sched' s = Next s' \<and> cons_pc s' = C_if \<and>
          returned s' = returned s @ [d s'] \<and> length (returned s) < length (pushed s') \<and>
          d s' = pushed s' ! length (returned s)))"
proof -
  from assms(1) have N: "0 < BUFFER_SIZE cfg" by (simp add: well_configured_def)
  from run_inv [OF assms(1,2)] have i: "inv cfg s" .
  then have f: "inv_fifo cfg s" and w: "inv_wait cfg s" and ne: "inv_notEmpty s"
    and c: "inv_cons cfg s"
    by (simp_all add: inv_def)
  note k = Get_sync [OF i assms(3)] and b = inv_fifo_bounds [OF N f]
  have 1: "Consumer cfg s =
         Next (s\<lparr>cons_pc := C_Get (if is_empty (buf s) then Wait else Update)\<rparr>)"
    if "pc = While"
    using that assms(3) by (simp add: Consumer_def Get_call_def)
  have 2: "\<not> is_empty (buf s) \<and>
       Consumer cfg s =
         Next (s\<lparr>buf := snd (Get_update cfg (buf s)), cons_pc := C_Get Signal,
                 data := buffer (buf s) ! nat (read (buf s)),
                 popped := popped s @ [buffer (buf s) ! nat (read (buf s))]\<rparr>) \<and>
       buffer (buf s) ! nat (read (buf s)) = pushed s ! length (popped s)"
    if "pc = Update"
  proof -
    from that assms(3) w have e: "\<not> is_empty (buf s)" by (simp add: inv_wait_def)
    with that assms(3) b(5) oldest_value(1) [OF f e] show ?thesis
      by (simp add: Consumer_def Get_call_def)
  qed
  have 3: "data s = last (popped s) \<and>
       Consumer cfg s =
         Next (s\<lparr>buf := (buf s)\<lparr>key := Unlocked\<rparr>, cons_pc := C_if, d := data s,
                 returned := returned s @ [data s]\<rparr>)"
    if "pc = Unlock"
    using that assms(3) c k(1,4)
    by (simp add: Consumer_def Get_call_def inv_cons_def pthread_mutex_unlock_def)
  have 4: "is_empty (buf s) \<and>
       Consumer cfg s =
         Next (s\<lparr>buf := (buf s)\<lparr>notEmpty := Waiters [th_a], key := Unlocked\<rparr>,
                 cons_pc := C_Get Wake\<rparr>)"
    if "pc = Wait"
    using that assms(3) w k(1,2,4) by (simp add: Consumer_def Get_call_def inv_wait_def)
  have 5: "if queued th_a (notEmpty (buf s))
        then Consumer cfg s = Disabled \<and>
          (is_empty (buf s) \<or> in_Store (\<lambda>pc. pc = Signal) (prod_pc s))
        else if key (buf s) = Unlocked
        then Consumer cfg s =
          Next (s\<lparr>buf := (buf s)\<lparr>key := Locked th_a\<rparr>, cons_pc := C_Get While\<rparr>)
        else Consumer cfg s = Disabled"
    if "pc = Wake"
  proof -
    from i assms(3) have m: "main_pc s = M_create_b \<or> main_pc s = M_join_a"
      using cons_alive [of s] by (auto simp: inv_def)
    from k(2) show ?thesis
    proof
      assume e: "notEmpty (buf s) = Waiters []"
      with that assms(3) k(1) show ?thesis
        by (cases "in_Store holds_key (prod_pc s)") (simp_all add: Consumer_def Get_call_def)
    next
      assume q: "pc = Wake \<and> notEmpty (buf s) = Waiters [th_a]"
      with ne m have "is_empty (buf s) \<or> in_Store (\<lambda>pc. pc = Signal) (prod_pc s)"
        by (auto simp: inv_notEmpty_def)
      with q assms(3) show ?thesis by (simp add: Consumer_def Get_call_def)
    qed
  qed
  have 6: "if key (buf s) = Unlocked
        then Consumer cfg s =
          Next (s\<lparr>buf := (buf s)\<lparr>key := Locked th_a\<rparr>, cons_pc := C_Get While\<rparr>)
        else Consumer cfg s = Disabled \<and> key (buf s) = Locked th_b \<and>
          in_Store holds_key (prod_pc s)"
    if "pc = Lock"
    using that assms(3) k(1)
    by (cases "in_Store holds_key (prod_pc s)") (simp_all add: Consumer_def Get_call_def)
  have 7: "data s = last (popped s) \<and>
       Consumer cfg s =
         Next (s\<lparr>buf := (buf s)\<lparr>notFull := Waiters []\<rparr>, cons_pc := C_Get Unlock\<rparr>)"
    if "pc = Signal"
    using that assms(3) c k(3)
    by (auto simp add: Consumer_def Get_call_def inv_cons_def)
  have 8: "\<exists>sched' s'. exec cfg sched' s = Next s' \<and> cons_pc s' = C_if \<and>
          returned s' = returned s @ [d s'] \<and> length (returned s) < length (pushed s') \<and>
          d s' = pushed s' ! length (returned s)"
    if "no_collision cfg"
    using Get_completes [OF assms(1) that i assms(3)] by blast
  have a: "pc = Update \<longrightarrow>
       \<not> is_empty (buf s) \<and>
       Consumer cfg s =
         Next (s\<lparr>buf := snd (Get_update cfg (buf s)), cons_pc := C_Get Signal,
                 data := buffer (buf s) ! nat (read (buf s)),
                 popped := popped s @ [buffer (buf s) ! nat (read (buf s))]\<rparr>) \<and>
       buffer (buf s) ! nat (read (buf s)) = pushed s ! length (popped s) \<and>
       read (snd (Get_update cfg (buf s))) = (read (buf s) + 1) mod BUFFER_SIZE cfg \<and>
       buffer (snd (Get_update cfg (buf s))) = buffer (buf s) \<and>
       write (snd (Get_update cfg (buf s))) = write (buf s)"
    using 2 read_advance [OF N f] by simp
  from 1 a 3 4 5 6 7 8 show ?thesis by blast
qed

theorem Get_reads_or_waits_witness:
  "well_configured source_config \<and> no_collision source_config \<and>
   exec source_config reading_schedule (initial source_config) = Next reading_state \<and>
   cons_pc reading_state = C_Get Update \<and>
   \<not> is_empty (buf reading_state) \<and>
   Consumer source_config reading_state =
     Next (reading_state
       \<lparr>buf := (buf reading_state)\<lparr>read := 2\<rparr>, cons_pc := C_Get Signal, data := 1,
        popped := [0, 1]\<rparr>) \<and>
   exec source_config starving_schedule (initial source_config) = Next starved_state \<and>
   cons_pc starved_state = C_Get Wake \<and>
   Consumer source_config starved_state = Disabled \<and>
   is_empty (buf starved_state) \<and>
   (\<exists>sched' s'. exec source_config sched' starved_state = Next s' \<and> cons_pc s' = C_if \<and>
      returned s' = returned starved_state @ [d s'] \<and>
      length (returned starved_state) < length (pushed s') \<and>
      d s' = pushed s' ! length (returned starved_state))"
proof -
  note r = Get_reads_or_waits [OF source_config_ok(1) exec_reading, of Update]
  note st = Get_reads_or_waits [OF source_config_ok(1) exec_starving, of Wake]
  have "\<not> in_Store (\<lambda>pc. pc = Signal) (prod_pc starved_state)" by (simp add: starved_state_def)
  with r st source_config_ok exec_reading exec_starving show ?thesis
    by (simp add: reading_state_def starved_state_def Get_update_def source_config_def)
qed

text \<open>
  C10. Every step of \<^verbatim>\<open>Store\<close> leaves \<^verbatim>\<open>read\<close> and every slot other than the one at
  \<^verbatim>\<open>write\<close> unchanged, and only the update of lines 75 to 77 changes the slots or
  \<^verbatim>\<open>write\<close> at all. Every step of \<^verbatim>\<open>Get\<close> leaves \<^verbatim>\<open>write\<close> and the whole array
  unchanged, and only the update of lines 97 to 99 changes \<^verbatim>\<open>read\<close>.
\<close>

theorem Store_Get_frame:
  "(Store cfg t v pc b = Next (r, b') \<longrightarrow>
      read b' = read b \<and> length (buffer b') = length (buffer b) \<and>
      (\<forall>i. i \<noteq> nat (write b) \<longrightarrow> buffer b' ! i = buffer b ! i) \<and>
      (pc \<noteq> Update \<longrightarrow> buffer b' = buffer b \<and> write b' = write b)) \<and>
   (Get cfg u pc' w c = Next (r', w', c') \<longrightarrow>
      write c' = write c \<and> buffer c' = buffer c \<and> (pc' \<noteq> Update \<longrightarrow> read c' = read c))"
proof -
  have "read b' = read b \<and> length (buffer b') = length (buffer b) \<and>
      (\<forall>i. i \<noteq> nat (write b) \<longrightarrow> buffer b' ! i = buffer b ! i) \<and>
      (pc \<noteq> Update \<longrightarrow> buffer b' = buffer b \<and> write b' = write b)"
    if "Store cfg t v pc b = Next (r, b')"
    using that by (cases pc) (auto simp: Store_Next_iff simp del: Store.simps)
  moreover
  have "write c' = write c \<and> buffer c' = buffer c \<and> (pc' \<noteq> Update \<longrightarrow> read c' = read c)"
    if "Get cfg u pc' w c = Next (r', w', c')"
    using that by (cases pc') (auto simp: Get_Next_iff simp del: Get.simps)
  ultimately show ?thesis by blast
qed

theorem Store_Get_frame_witness:
  "Store source_config th_b 1 Update (buf writing_state) =
     Next (Some Signal, (buf writing_state)\<lparr>buffer := [0, 1, 0, 0], write := 2\<rparr>) \<and>
   Get source_config th_a Update 0 (buf reading_state) =
     Next (Some Signal, 1, (buf reading_state)\<lparr>read := 2\<rparr>) \<and>
   read ((buf writing_state)\<lparr>buffer := [0, 1, 0, 0], write := 2\<rparr>) = read (buf writing_state) \<and>
   buffer ((buf writing_state)\<lparr>buffer := [0, 1, 0, 0], write := 2\<rparr>) ! 0 =
     buffer (buf writing_state) ! 0 \<and>
   write ((buf reading_state)\<lparr>read := 2\<rparr>) = write (buf reading_state) \<and>
   buffer ((buf reading_state)\<lparr>read := 2\<rparr>) = buffer (buf reading_state)"
proof -
  have s: "Store source_config th_b 1 Update (buf writing_state) =
     Next (Some Signal, (buf writing_state)\<lparr>buffer := [0, 1, 0, 0], write := 2\<rparr>)"
    by (simp add: writing_state_def source_config_def in_bounds_def Store_update_def)
  have g: "Get source_config th_a Update 0 (buf reading_state) =
     Next (Some Signal, 1, (buf reading_state)\<lparr>read := 2\<rparr>)"
    by (simp add: reading_state_def source_config_def in_bounds_def Get_update_def)
  have w: "nat (write (buf writing_state)) \<noteq> 0" by (simp add: writing_state_def)
  from s g w Store_Get_frame [of source_config th_b 1 Update "buf writing_state" "Some Signal"
      "(buf writing_state)\<lparr>buffer := [0, 1, 0, 0], write := 2\<rparr>" th_a Update 0
      "buf reading_state" "Some Signal" 1 "(buf reading_state)\<lparr>read := 2\<rparr>"]
  show ?thesis by (metis (no_types))
qed

lemma final_stuck:
  assumes "inv cfg s" "final s"
  shows "step cfg a s = Disabled"
proof -
  from assms have m: "main_pc s = M_return" and c: "cons_pc s = C_return"
    and p: "prod_pc s = P_return"
    by (simp_all add: final_def inv_def inv_life_def)
  from assms m have "notFull (buf s) = Cond_invalid" "notEmpty (buf s) = Cond_invalid"
    by (simp_all add: inv_def inv_notFull_def inv_notEmpty_def)
  then have "wake_spuriously t s = Disabled" for t by (simp add: wake_spuriously_def)
  with m c p show ?thesis
  proof (cases a)
    case (Run t)
    with m c p show ?thesis by (cases t) (simp_all add: main_def Consumer_def Producer_def)
  qed simp
qed

text \<open>
  C7. For every capacity of at least 2 and every \<^verbatim>\<open>COUNT\<close> (with a sentinel that is
  not one of \<open>0, ..., COUNT - 1\<close>, as \<open>-1\<close> is), every run is finite: the number of
  steps the threads take is at most \<open>22 * COUNT + 38\<close>, plus three for every spurious
  wake-up the environment delivers. No step is undefined behaviour. No state short of the
  return of \<^verbatim>\<open>main\<close> is a deadlock: some thread can take a step, and the run can be
  continued to the return of \<^verbatim>\<open>main\<close>. When \<^verbatim>\<open>main\<close> has returned, it has joined
  both threads: \<^verbatim>\<open>Consumer\<close> and \<^verbatim>\<open>Producer\<close> have returned, and nothing can take a
  step any more.
\<close>

theorem pipeline_terminates:
  assumes "well_configured cfg" "no_collision cfg" "exec cfg sched (initial cfg) = Next s"
  shows "thread_steps sched \<le> bound cfg + 3 * spurious_wakeups sched \<and>
    (\<forall>a. step cfg a s \<noteq> Fault) \<and>
    (\<not> final s \<longrightarrow> (\<exists>t. enabled cfg (Run t) s)) \<and>
    (\<exists>sched' s'. exec cfg sched' s = Next s' \<and> final s' \<and> spurious_wakeups sched' = 0) \<and>
    (final s \<longrightarrow>
       cons_pc s = C_return \<and> prod_pc s = P_return \<and> (\<forall>a. step cfg a s = Disabled))"
proof -
  from run_inv [OF assms(1,3)] have i: "inv cfg s" .
  from work_exec [OF assms(1) inv_initial [OF assms(1)] assms(3)]
  have "thread_steps sched \<le> bound cfg + 3 * spurious_wakeups sched"
    by (simp add: work_initial)
  moreover have "\<forall>a. step cfg a s \<noteq> Fault" using step_no_fault [OF assms(1) i] by blast
  moreover have "\<not> final s \<longrightarrow> (\<exists>t. enabled cfg (Run t) s)"
    using progress [OF assms(1,2) i] by blast
  moreover note can_finish [OF assms(1,2) i]
  moreover have "final s \<longrightarrow>
       cons_pc s = C_return \<and> prod_pc s = P_return \<and> (\<forall>a. step cfg a s = Disabled)"
    using final_threads [OF i] final_stuck [OF i] by blast
  ultimately show ?thesis by blast
qed

theorem pipeline_terminates_witness:
  "well_configured source_config \<and> no_collision source_config \<and>
   exec source_config full_schedule (initial source_config) = Next end_state \<and>
   final end_state \<and>
   thread_steps full_schedule \<le> bound source_config + 3 * spurious_wakeups full_schedule \<and>
   cons_pc end_state = C_return \<and> prod_pc end_state = P_return"
  using pipeline_terminates [OF source_config_ok exec_full] source_config_ok exec_full
  by (simp add: final_def end_state_def)

lemma exec_startup: "exec cfg startup (initial cfg) = Next (started cfg)"
  by (simp add: startup_def started_def initial_def main_def numeral_eq_Suc)

text \<open>
  C8, as the code has it: \<^verbatim>\<open>init\<close> does not look at the results of the three
  initialisation calls and \<^verbatim>\<open>main\<close> has no abort path: whatever the three results are,
  the first four steps of \<^verbatim>\<open>main\<close> initialise the structure (both indices 0, each
  primitive as its initialisation left it), seed the generator and create the consumer
  and the producer.
\<close>

theorem startup_ignores_init_results:
  "exec cfg startup (initial cfg) = Next (started cfg) \<and>
   main_pc (started cfg) = M_join_a \<and>
   cons_pc (started cfg) = C_Get Lock \<and> prod_pc (started cfg) = P_init \<and>
   read (buf (started cfg)) = 0 \<and> write (buf (started cfg)) = 0 \<and>
   key (buf (started cfg)) = pthread_mutex_init (key_rc cfg) \<and>
   notEmpty (buf (started cfg)) = pthread_cond_init (notEmpty_rc cfg) \<and>
   notFull (buf (started cfg)) = pthread_cond_init (notFull_rc cfg)"
  using exec_startup [of cfg] by (simp add: started_def init_def)

theorem startup_ignores_init_results_witness:
  "exec failing_config startup (initial failing_config) = Next (started failing_config) \<and>
   cons_pc (started failing_config) = C_Get Lock \<and>
   prod_pc (started failing_config) = P_init \<and>
   key (buf (started failing_config)) = Mutex_invalid"
  using startup_ignores_init_results [of failing_config]
  by (simp add: failing_config_def source_config_def pthread_mutex_init_def)

text \<open>
  C8 as the specification states it (a failed initialisation aborts the program before
  a thread is created) does not hold: when the initialisation of the mutex fails (result
  12, \<^verbatim>\<open>ENOMEM\<close>), the program does not abort; after the first four steps of \<^verbatim>\<open>main\<close>
  the consumer and the producer have both been created, over a mutex that is not
  initialised, and the first step of the consumer, which locks it, is undefined.
\<close>

theorem init_failure_not_fatal:
  "pthread_mutex_init (key_rc failing_config) = Mutex_invalid \<and>
   exec failing_config startup (initial failing_config) = Next failed_start_state \<and>
   cons_pc failed_start_state = C_Get Lock \<and> prod_pc failed_start_state = P_init \<and>
   step failing_config (Run th_a) failed_start_state = Fault"
proof -
  have "started failing_config = failed_start_state"
    by (simp add: started_def initial_def init_def failing_config_def source_config_def
        failed_start_state_def pthread_mutex_init_def pthread_cond_init_def numeral_eq_Suc)
  with exec_startup [of failing_config]
  have "exec failing_config startup (initial failing_config) = Next failed_start_state"
    by simp
  moreover have "step failing_config (Run th_a) failed_start_state = Fault"
    by (simp add: failed_start_state_def Consumer_def Get_call_def)
  moreover have "pthread_mutex_init (key_rc failing_config) = Mutex_invalid"
    by (simp add: failing_config_def pthread_mutex_init_def)
  ultimately show ?thesis by (simp add: failed_start_state_def)
qed

lemma source_items: "[0..COUNT source_config - 1] = [0, 1, 2, 3, 4, 5, 6, 7, 8, 9, 10]"
  by (simp add: source_config_def upto_rec1)

lemma prefix_without_last:
  assumes "prefix xs (ys @ [z])" "z \<notin> set xs"
  shows "prefix xs ys"
  using assms by auto

text \<open>
  C9. With the constants of the source (\<^verbatim>\<open>BUFFER_SIZE\<close> 4, \<^verbatim>\<open>COUNT\<close> 11, \<^verbatim>\<open>LIMIT\<close>
  -1), in every run the lines printed by the consumer are an initial segment of
  \<open>0, 1, ..., 10\<close>, and they are exactly \<open>0, 1, ..., 10\<close> when \<^verbatim>\<open>Consumer\<close> has
  returned. Until \<^verbatim>\<open>main\<close> has returned some thread can take a step, and every run
  can be continued to a state where \<^verbatim>\<open>Consumer\<close> has returned with these lines
  printed.
\<close>

theorem source_output:
  assumes "exec source_config sched (initial source_config) = Next s"
  shows "prefix (consumed (stdout s)) [0, 1, 2, 3, 4, 5, 6, 7, 8, 9, 10] \<and>
    (cons_pc s = C_return \<longrightarrow> consumed (stdout s) = [0, 1, 2, 3, 4, 5, 6, 7, 8, 9, 10]) \<and>
    (\<not> final s \<longrightarrow> (\<exists>t. enabled source_config (Run t) s)) \<and>
    (\<exists>sched' s'. exec source_config sched' s = Next s' \<and> cons_pc s' = C_return \<and>
       consumed (stdout s') = [0, 1, 2, 3, 4, 5, 6, 7, 8, 9, 10])"
proof -
  note ok = source_config_ok
  from run_inv [OF ok(1) assms] have i: "inv source_config s" .
  then have c: "inv_cons source_config s" and f: "inv_fifo source_config s"
    and p: "inv_prod source_config s"
    by (simp_all add: inv_def)
  have "prefix (consumed (stdout s)) (pushed s)"
    using returned_prefix(1,2) [OF c] popped_prefix [OF f] by (meson prefix_order.trans)
  with pushed_prefix [OF p]
  have "prefix (consumed (stdout s)) ([0..COUNT source_config - 1] @ [LIMIT source_config])"
    by (meson prefix_order.trans)
  moreover have "LIMIT source_config \<notin> set (consumed (stdout s))"
    using c by (cases "cons_pc s") (simp_all add: inv_cons_def)
  ultimately have 1: "prefix (consumed (stdout s)) [0, 1, 2, 3, 4, 5, 6, 7, 8, 9, 10]"
    unfolding source_items by (rule prefix_without_last)
  have 2: "consumed (stdout s) = [0, 1, 2, 3, 4, 5, 6, 7, 8, 9, 10]" if "cons_pc s = C_return"
    using all_delivered(3) [OF ok(2) i that] by (simp add: source_items)
  have 3: "\<exists>t. enabled source_config (Run t) s" if "\<not> final s"
    using progress [OF ok i that] .
  from can_finish [OF ok i] obtain sched' s' where
    e: "exec source_config sched' s = Next s'" and fin: "final s'"
    by blast
  from inv_exec [OF ok(1) i e] have i': "inv source_config s'" .
  from final_threads(1) [OF i' fin] all_delivered(3) [OF ok(2) i']
  have "cons_pc s' = C_return \<and> consumed (stdout s') = [0, 1, 2, 3, 4, 5, 6, 7, 8, 9, 10]"
    by (simp add: source_items)
  with e 1 2 3 show ?thesis by blast
qed

theorem source_output_witness:
  "exec source_config full_schedule (initial source_config) = Next end_state \<and>
   cons_pc end_state = C_return \<and>
   consumed (stdout end_state) = [0, 1, 2, 3, 4, 5, 6, 7, 8, 9, 10]"
  using source_output [OF exec_full] exec_full by (simp add: end_state_def)

text \<open>
  C4. In every run: the consumer never prints the sentinel; what it has printed is what
  \<^verbatim>\<open>Get\<close> has returned, except for at most the last value; whenever the consumer
  is inside \<^verbatim>\<open>Get\<close> every value returned so far has been printed; at the test
  \<^verbatim>\<open>d == LIMIT\<close> it returns when the value just returned is the sentinel and goes on
  to print it otherwise; it prints before it calls \<^verbatim>\<open>Get\<close> again; and it has
  returned only after \<^verbatim>\<open>Get\<close> returned the sentinel, which it did not print.

  The consumer does run the loop. Its steps inside \<^verbatim>\<open>Get\<close> are steps of \<^verbatim>\<open>Get\<close>: they
  print nothing, and until the unlock they stay inside \<^verbatim>\<open>Get\<close> and return nothing; the
  unlock ends the call, assigns the value read to \<open>d\<close> and goes to the test
  \<^verbatim>\<open>d == LIMIT\<close>. When the sentinel is not one of \<open>0, ..., COUNT - 1\<close>, a call of
  \<^verbatim>\<open>Get\<close> can be run from where it is to the test, with one more value returned and
  nothing printed meanwhile, and every run can be continued to a state where
  \<^verbatim>\<open>Consumer\<close> has returned, having printed \<open>0, ..., COUNT - 1\<close>, of which the lines
  printed so far are the first, and having been returned the sentinel after them.
\<close>

theorem consumer_loop:
  assumes "well_configured cfg" "exec cfg sched (initial cfg) = Next s"
  shows "LIMIT cfg \<notin> set (consumed (stdout s)) \<and>
    prefix (consumed (stdout s)) (returned s) \<and>
    length (returned s) \<le> length (consumed (stdout s)) + 1 \<and>
    (in_Get (\<lambda>pc. True) (cons_pc s) \<longrightarrow> consumed (stdout s) = returned s) \<and>
    (cons_pc s = C_if \<longrightarrow>
       returned s = consumed (stdout s) @ [d s] \<and>
       Consumer cfg s =
         Next (s\<lparr>cons_pc := (if d s = LIMIT cfg then C_return else C_printf)\<rparr>)) \<and>
    (cons_pc s = C_printf \<longrightarrow>
       d s \<noteq> LIMIT cfg \<and> returned s = consumed (stdout s) @ [d s] \<and>
       Consumer cfg s = Next (s\<lparr>stdout := stdout s @ [Consumed (d s)], cons_pc := C_sleep\<rparr>)) \<and>
    (cons_pc s = C_sleep \<longrightarrow>
       consumed (stdout s) = returned s \<and> Consumer cfg s = Next (s\<lparr>cons_pc := C_Get Lock\<rparr>)) \<and>
    (cons_pc s = C_return \<longrightarrow>
       returned s = consumed (stdout s) @ [LIMIT cfg] \<and> Consumer cfg s = Disabled) \<and>
    (LIMIT cfg \<in> set (returned s) \<longrightarrow> cons_pc s = C_if \<and> d s = LIMIT cfg \<or> cons_pc s = C_return) \<and>
    (\<forall>pc. cons_pc s = C_Get pc \<longrightarrow>
       (pc = Unlock \<longrightarrow>
          Consumer cfg s =
            Next (s\<lparr>buf := (buf s)\<lparr>key := Unlocked\<rparr>, cons_pc := C_if, d := data s,
                    returned := returned s @ [data s]\<rparr>)) \<and>
       (pc \<noteq> Unlock \<longrightarrow>
          (\<forall>s'. Consumer cfg s = Next s' \<longrightarrow>
             (\<exists>pc'. cons_pc s' = C_Get pc') \<and> returned s' = returned s \<and>
             stdout s' = stdout s)) \<and>
       (no_collision cfg \<longrightarrow>
          (\<exists>sched' s'. exec cfg sched' s = Next s' \<and> cons_pc s' = C_if \<and>
             returned s' = returned s @ [d s'] \<and>
             consumed (stdout s') = consumed (stdout s)))) \<and>
    (no_collision cfg \<longrightarrow>
       (\<exists>sched' s'. exec cfg sched' s = Next s' \<and> cons_pc s' = C_return \<and>
          prefix (consumed (stdout s)) (consumed (stdout s')) \<and>
          consumed (stdout s') = [0..COUNT cfg - 1] \<and>
          returned s' = consumed (stdout s') @ [LIMIT cfg]))"
proof -
  from run_inv [OF assms] have i: "inv cfg s" .
  then have c: "inv_cons cfg s" and f: "inv_fifo cfg s" and p: "inv_prod cfg s"
    by (simp_all add: inv_def)
  have 1: "LIMIT cfg \<notin> set (consumed (stdout s))"
    using c by (cases "cons_pc s") (simp_all add: inv_cons_def)
  note 2 = returned_prefix(1,3) [OF c]
  have 3: "in_Get (\<lambda>pc. True) (cons_pc s) \<longrightarrow> consumed (stdout s) = returned s"
    using c by (cases "cons_pc s") (simp_all add: inv_cons_def)
  have 4: "cons_pc s = C_if \<longrightarrow>
       returned s = consumed (stdout s) @ [d s] \<and>
       Consumer cfg s =
         Next (s\<lparr>cons_pc := (if d s = LIMIT cfg then C_return else C_printf)\<rparr>)"
    using c by (auto simp: inv_cons_def Consumer_def)
  have 5: "cons_pc s = C_printf \<longrightarrow>
       d s \<noteq> LIMIT cfg \<and> returned s = consumed (stdout s) @ [d s] \<and>
       Consumer cfg s = Next (s\<lparr>stdout := stdout s @ [Consumed (d s)], cons_pc := C_sleep\<rparr>)"
    using c by (auto simp: inv_cons_def Consumer_def)
  have 6: "cons_pc s = C_sleep \<longrightarrow>
       consumed (stdout s) = returned s \<and> Consumer cfg s = Next (s\<lparr>cons_pc := C_Get Lock\<rparr>)"
    using c by (auto simp: inv_cons_def Consumer_def)
  have 7: "cons_pc s = C_return \<longrightarrow>
       returned s = consumed (stdout s) @ [LIMIT cfg] \<and> Consumer cfg s = Disabled"
    using c by (auto simp: inv_cons_def Consumer_def)
  have 8: "LIMIT cfg \<in> set (returned s) \<longrightarrow>
      cons_pc s = C_if \<and> d s = LIMIT cfg \<or> cons_pc s = C_return"
    using c by (cases "cons_pc s") (auto simp: inv_cons_def)
  have 9: "(pc = Unlock \<longrightarrow>
          Consumer cfg s =
            Next (s\<lparr>buf := (buf s)\<lparr>key := Unlocked\<rparr>, cons_pc := C_if, d := data s,
                    returned := returned s @ [data s]\<rparr>)) \<and>
       (pc \<noteq> Unlock \<longrightarrow>
          (\<forall>s'. Consumer cfg s = Next s' \<longrightarrow>
             (\<exists>pc'. cons_pc s' = C_Get pc') \<and> returned s' = returned s \<and>
             stdout s' = stdout s)) \<and>
       (no_collision cfg \<longrightarrow>
          (\<exists>sched' s'. exec cfg sched' s = Next s' \<and> cons_pc s' = C_if \<and>
             returned s' = returned s @ [d s'] \<and>
             consumed (stdout s') = consumed (stdout s)))"
    if pc: "cons_pc s = C_Get pc" for pc
  proof -
    note k = Get_sync [OF i pc]
    have u: "Consumer cfg s =
            Next (s\<lparr>buf := (buf s)\<lparr>key := Unlocked\<rparr>, cons_pc := C_if, d := data s,
                    returned := returned s @ [data s]\<rparr>)"
      if "pc = Unlock"
      using that pc k(1,4)
      by (simp add: Consumer_def Get_call_def pthread_mutex_unlock_def)
    have v: "(\<exists>pc'. cons_pc s' = C_Get pc') \<and> returned s' = returned s \<and> stdout s' = stdout s"
      if "pc \<noteq> Unlock" "Consumer cfg s = Next s'" for s'
      using that(2) pc that(1) by (cases rule: Consumer_NextE) simp_all
    have w: "\<exists>sched' s'. exec cfg sched' s = Next s' \<and> cons_pc s' = C_if \<and>
             returned s' = returned s @ [d s'] \<and>
             consumed (stdout s') = consumed (stdout s)"
      if nc: "no_collision cfg"
    proof -
      from Get_completes [OF assms(1) nc i pc] obtain sched' s' where
        e: "exec cfg sched' s = Next s'" "cons_pc s' = C_if" "returned s' = returned s @ [d s']"
        by blast
      from inv_exec [OF assms(1) i e(1)] have "inv_cons cfg s'" by (simp add: inv_def)
      with e(2) have "returned s' = consumed (stdout s') @ [d s']" by (simp add: inv_cons_def)
      with e(3) have "consumed (stdout s') = returned s" by simp
      moreover from c pc have "returned s = consumed (stdout s)" by (simp add: inv_cons_def)
      ultimately have "consumed (stdout s') = consumed (stdout s)" by simp
      with e show ?thesis by blast
    qed
    from u v w show ?thesis by blast
  qed
  have 10: "\<exists>sched' s'. exec cfg sched' s = Next s' \<and> cons_pc s' = C_return \<and>
          prefix (consumed (stdout s)) (consumed (stdout s')) \<and>
          consumed (stdout s') = [0..COUNT cfg - 1] \<and>
          returned s' = consumed (stdout s') @ [LIMIT cfg]"
    if nc: "no_collision cfg"
  proof -
    from can_deliver [OF assms(1) nc i] obtain sched' s' where
      e: "exec cfg sched' s = Next s'" "cons_pc s' = C_return"
        "pushed s' = [0..COUNT cfg - 1] @ [LIMIT cfg]" "returned s' = pushed s'"
        "consumed (stdout s') = [0..COUNT cfg - 1]"
      by blast
    have "prefix (consumed (stdout s)) (pushed s)"
      using returned_prefix(1,2) [OF c] popped_prefix [OF f] by (meson prefix_order.trans)
    with pushed_prefix [OF p]
    have "prefix (consumed (stdout s)) ([0..COUNT cfg - 1] @ [LIMIT cfg])"
      by (meson prefix_order.trans)
    then have "prefix (consumed (stdout s)) [0..COUNT cfg - 1]"
      using 1 by (rule prefix_without_last)
    with e have "exec cfg sched' s = Next s' \<and> cons_pc s' = C_return \<and>
          prefix (consumed (stdout s)) (consumed (stdout s')) \<and>
          consumed (stdout s') = [0..COUNT cfg - 1] \<and>
          returned s' = consumed (stdout s') @ [LIMIT cfg]"
      by simp
    then show ?thesis by blast
  qed
  from 1 2 3 4 5 6 7 8 9 10 show ?thesis by blast
qed

theorem consumer_loop_witness:
  "well_configured source_config \<and> no_collision source_config \<and>
   exec source_config full_schedule (initial source_config) = Next end_state \<and>
   cons_pc end_state = C_return \<and>
   returned end_state = consumed (stdout end_state) @ [LIMIT source_config] \<and>
   consumed (stdout end_state) = [0, 1, 2, 3, 4, 5, 6, 7, 8, 9, 10] \<and>
   Consumer source_config end_state = Disabled \<and>
   exec source_config reading_schedule (initial source_config) = Next reading_state \<and>
   cons_pc reading_state = C_Get Update \<and>
   (\<exists>sched' s'. exec source_config sched' reading_state = Next s' \<and> cons_pc s' = C_if \<and>
      returned s' = returned reading_state @ [d s'] \<and>
      consumed (stdout s') = consumed (stdout reading_state))"
proof -
  note e = consumer_loop [OF source_config_ok(1) exec_full]
  note r = consumer_loop [OF source_config_ok(1) exec_reading]
  from e r source_config_ok exec_full exec_reading show ?thesis
    by (simp add: end_state_def reading_state_def source_config_def)
qed

subsection \<open>Further properties\<close>

text \<open>
  X1. Mutual exclusion: in every run, the producer between the lock and the unlock of
  \<^verbatim>\<open>Store\<close> holds the key, the consumer between the lock and the unlock of \<^verbatim>\<open>Get\<close>
  holds the key, and they are never both there.
\<close>

theorem mutual_exclusion:
  assumes "well_configured cfg" "exec cfg sched (initial cfg) = Next s"
  shows "\<not> (in_Store holds_key (prod_pc s) \<and> in_Get holds_key (cons_pc s)) \<and>
    (in_Store holds_key (prod_pc s) \<longrightarrow> key (buf s) = Locked th_b) \<and>
    (in_Get holds_key (cons_pc s) \<longrightarrow> key (buf s) = Locked th_a)"
proof -
  from run_inv [OF assms] have i: "inv cfg s" .
  then have k: "inv_key s" and l: "inv_life s" by (simp_all add: inv_def)
  have "key (buf s) = Locked th_b" if "in_Store holds_key (prod_pc s)"
  proof -
    from that have "prod_pc s \<noteq> P_unborn" "prod_pc s \<noteq> P_return" by auto
    from prod_alive [OF l this] k that show ?thesis by (auto simp: inv_key_def)
  qed
  moreover have "key (buf s) = Locked th_a" if "in_Get holds_key (cons_pc s)"
  proof -
    from that have "cons_pc s \<noteq> C_unborn" "cons_pc s \<noteq> C_return" by auto
    from cons_alive [OF l this] k that show ?thesis by (auto simp: inv_key_def)
  qed
  moreover from k have "\<not> (in_Store holds_key (prod_pc s) \<and> in_Get holds_key (cons_pc s))"
    by (simp add: inv_key_def)
  ultimately show ?thesis by blast
qed

theorem mutual_exclusion_witness:
  "well_configured source_config \<and>
   exec source_config writing_schedule (initial source_config) = Next writing_state \<and>
   in_Store holds_key (prod_pc writing_state) \<and> \<not> in_Get holds_key (cons_pc writing_state) \<and>
   key (buf writing_state) = Locked th_b"
  using mutual_exclusion [OF source_config_ok(1) exec_writing] source_config_ok(1) exec_writing
  by (simp add: writing_state_def)

text \<open>
  X2. No undefined behaviour: in every run no action is a fault. Every array access is in
  bounds, every primitive is used between its initialisation and its destruction, a
  thread unlocks and waits only with the key it holds, and the primitives are destroyed
  with no thread waiting on them and the key free.
\<close>

theorem no_undefined_behaviour:
  assumes "well_configured cfg" "exec cfg sched (initial cfg) = Next s"
  shows "step cfg a s \<noteq> Fault"
  using step_no_fault [OF assms(1) run_inv [OF assms]] .

theorem no_undefined_behaviour_witness:
  "well_configured source_config \<and>
   exec source_config writing_schedule (initial source_config) = Next writing_state \<and>
   step source_config (Run th_b) writing_state \<noteq> Fault \<and>
   step source_config (Run th_a) writing_state \<noteq> Fault"
  using no_undefined_behaviour [OF source_config_ok(1) exec_writing, of "Run th_b"]
    no_undefined_behaviour [OF source_config_ok(1) exec_writing, of "Run th_a"]
    source_config_ok(1) exec_writing
  by simp

text \<open>
  X3. Teardown: in every run, when \<^verbatim>\<open>main\<close> is about to destroy the primitives both threads
  have returned, no thread is queued on either condition variable, and each destruction
  succeeds.
\<close>

theorem teardown:
  assumes "well_configured cfg" "exec cfg sched (initial cfg) = Next s"
    "main_pc s = M_destroy_notEmpty \<or> main_pc s = M_destroy_notFull \<or> main_pc s = M_destroy_key"
  shows "cons_pc s = C_return \<and> prod_pc s = P_return \<and>
    \<not> queued th_a (notEmpty (buf s)) \<and> \<not> queued th_b (notEmpty (buf s)) \<and>
    \<not> queued th_a (notFull (buf s)) \<and> \<not> queued th_b (notFull (buf s)) \<and>
    enabled cfg (Run main_thread) s"
proof -
  from run_inv [OF assms(1,2)] have i: "inv cfg s" .
  with assms(3) have t: "cons_pc s = C_return" "prod_pc s = P_return"
    by (auto simp: inv_def inv_life_def)
  from i assms(3) t have "notEmpty (buf s) = Waiters [] \<or> notEmpty (buf s) = Cond_invalid"
    "notFull (buf s) = Waiters [] \<or> notFull (buf s) = Cond_invalid"
    by (auto simp: inv_def inv_notEmpty_def inv_notFull_def split: if_splits)
  then have q: "\<not> queued th_a (notEmpty (buf s))" "\<not> queued th_b (notEmpty (buf s))"
    "\<not> queued th_a (notFull (buf s))" "\<not> queued th_b (notFull (buf s))"
    by auto
  from main_no_fault [OF assms(1) i] main_Disabled [OF i] assms(3)
  have "enabled cfg (Run main_thread) s"
    by (cases "main cfg s") (auto simp: enabled_def)
  with t q show ?thesis by simp
qed

lemma exec_teardown:
  "exec source_config teardown_schedule (initial source_config) = Next teardown_state"
  by code_simp

theorem teardown_witness:
  "well_configured source_config \<and>
   exec source_config teardown_schedule (initial source_config) = Next teardown_state \<and>
   main_pc teardown_state = M_destroy_notEmpty \<and>
   cons_pc teardown_state = C_return \<and> prod_pc teardown_state = P_return \<and>
   enabled source_config (Run main_thread) teardown_state"
  using teardown [OF source_config_ok(1) exec_teardown] source_config_ok(1) exec_teardown
  by (simp add: teardown_state_def end_state_def)

end
